theory Spec2Isabelle
  imports Main "HOL-Library.Word" "HOL-Library.Finite_Map" "HOL-Library.Multiset"
begin

section \<open>Values\<close>

text \<open>
  The store caches JavaScript values. The model covers the values that survive
  \<^verbatim>\<open>JSON.stringify\<close>: null, booleans, numbers (the integers, as far as the
  language represents them exactly and prints them in decimal; fractions, NaN and
  the infinities are outside the model), strings (lists of code units below 256),
  arrays, plain objects (their own properties, in property order) and Node.js byte
  buffers. The type of a buffer's contents is a parameter: values handed to
  \<^verbatim>\<open>write\<close> and returned by \<^verbatim>\<open>read\<close> hold bytes, the tree that
  \<^verbatim>\<open>read\<close> builds while parsing holds buffers that may be filled later.
\<close>

type_synonym byte = "8 word"
type_synonym bytes = "byte list"

datatype 'b jsval =
    JNull
  | JBool bool
  | JNum int
  | JStr string
  | JArr "'b jsval list"
  | JObj "(string \<times> 'b jsval) list"
  | JBuf 'b

text \<open>
  Every \<^verbatim>\<open>throw\<close> and every rejected promise of the source is a value of
  \<open>error\<close>: \<open>ENOENT\<close> is the file system's not-found condition,
  \<open>MetaNotValidJson\<close> is \<^verbatim>\<open>Error('fs-cache meta file is not valid json')\<close>,
  \<open>NotSettingCacheValue len maxsize\<close> is the error of line 81, and
  \<open>TypeError\<close>, \<open>RangeError\<close>, \<open>SyntaxError\<close> are the language's own faults
  (a property read on \<^verbatim>\<open>undefined\<close> or \<^verbatim>\<open>null\<close>, \<^verbatim>\<open>Buffer.alloc\<close> of a negative
  size, \<^verbatim>\<open>JSON.parse\<close> of something that is not JSON).
\<close>

datatype error =
    ENOENT
  | MetaNotValidJson
  | NotSettingCacheValue int int
  | TypeError
  | RangeError
  | SyntaxError

text \<open>
  What the model takes from the platform as a parameter, because it depends on
  coercions of the language and on the Node.js version: \<^verbatim>\<open>Buffer.from(d)\<close> for
  every \<open>d\<close> that is neither a buffer nor an array of integers, and the test
  \<^verbatim>\<open>d.length >= 1024\<close> for a plain object \<open>d\<close>. Every theorem below holds for
  every platform.
\<close>

record platform =
  Buffer_from_other :: "bytes jsval \<Rightarrow> error + bytes"
  length_ge_1024_other :: "bytes jsval \<Rightarrow> bool"

text \<open>Truthiness of a value, as \<^verbatim>\<open>value && ...\<close> tests it.\<close>

fun truthy :: "'b jsval \<Rightarrow> bool" where
  "truthy JNull = False"
| "truthy (JBool b) = b"
| "truthy (JNum n) = (n \<noteq> 0)"
| "truthy (JStr s) = (s \<noteq> [])"
| "truthy _ = True"

text \<open>
  \<open>get_prop k v\<close> is the property read \<^verbatim>\<open>v[k]\<close> for the keys the source reads
  (\<^verbatim>\<open>type\<close>, \<^verbatim>\<open>data\<close>, \<^verbatim>\<open>index\<close>, \<^verbatim>\<open>size\<close>); \<open>None\<close> is
  \<^verbatim>\<open>undefined\<close>. Only a plain object has such properties.
\<close>

fun get_prop :: "string \<Rightarrow> 'b jsval \<Rightarrow> 'b jsval option" where
  "get_prop k (JObj kvs) = map_of kvs k"
| "get_prop k _ = None"

fun is_JNum :: "'b jsval \<Rightarrow> bool" where
  "is_JNum (JNum n) = True"
| "is_JNum _ = False"

fun the_JNum :: "'b jsval \<Rightarrow> int" where
  "the_JNum (JNum n) = n"
| "the_JNum _ = 0"

text \<open>
  \<^verbatim>\<open>Buffer.from(d)\<close>: a copy of a buffer, or the bytes of an array of
  integers, each taken modulo 256.
\<close>

definition Buffer_from :: "platform \<Rightarrow> bytes jsval \<Rightarrow> error + bytes" where
  "Buffer_from pf d =
     (case d of
        JBuf bs \<Rightarrow> Inr bs
      | JArr xs \<Rightarrow>
          if list_all is_JNum xs then Inr (map (\<lambda>x. word_of_int (the_JNum x)) xs)
          else Buffer_from_other pf d
      | _ \<Rightarrow> Buffer_from_other pf d)"

text \<open>\<^verbatim>\<open>Buffer.prototype.toJSON\<close>; every other value of the model has no \<^verbatim>\<open>toJSON\<close>.\<close>

fun toJSON :: "bytes jsval \<Rightarrow> bytes jsval" where
  "toJSON (JBuf bs) = JObj [(''type'', JStr ''Buffer''), (''data'', JArr (map (\<lambda>b. JNum (uint b)) bs))]"
| "toJSON v = v"

text \<open>The test \<^verbatim>\<open>value.data.length >= 1024\<close> of line 61, for a truthy \<open>d\<close>.\<close>

definition data_length_ge_1024 :: "platform \<Rightarrow> bytes jsval \<Rightarrow> bool" where
  "data_length_ge_1024 pf d =
     (case d of
        JArr xs \<Rightarrow> length xs \<ge> 1024
      | JBuf bs \<Rightarrow> length bs \<ge> 1024
      | JStr s \<Rightarrow> length s \<ge> 1024
      | JObj kvs \<Rightarrow> length_ge_1024_other pf d
      | _ \<Rightarrow> False)"

section \<open>Encoding: \<^verbatim>\<open>JSON.stringify\<close> with \<^verbatim>\<open>replacerFunction\<close>\<close>

text \<open>
  The replacer closes over \<^verbatim>\<open>externalBuffers\<close> and
  \<^verbatim>\<open>externalBuffersLength\<close>; the model passes both along.
\<close>

type_synonym ext_state = "(nat \<times> bytes) list \<times> nat"

definition ExternalBuffer :: "int \<Rightarrow> int \<Rightarrow> 'b jsval" where
  "ExternalBuffer i n = JObj [(''type'', JStr ''ExternalBuffer''), (''index'', JNum i), (''size'', JNum n)]"

definition replacerFunction ::
  "platform \<Rightarrow> bytes jsval \<Rightarrow> ext_state \<Rightarrow> error + bytes jsval \<times> ext_state" where
  "replacerFunction pf v s =
     (case s of (externalBuffers, externalBuffersLength) \<Rightarrow>
        (case (if truthy v \<and> get_prop ''type'' v = Some (JStr ''Buffer'') then get_prop ''data'' v else None) of
           None \<Rightarrow> Inr (v, s)
         | Some d \<Rightarrow>
             if truthy d \<and> data_length_ge_1024 pf d then
               (case Buffer_from pf d of
                  Inl e \<Rightarrow> Inl e
                | Inr buffer \<Rightarrow>
                    Inr (ExternalBuffer (int (length externalBuffers)) (int (length buffer)),
                         (externalBuffers @ [(length externalBuffers, buffer)],
                          externalBuffersLength + length buffer)))
             else Inr (v, s)))"

text \<open>Running a stateful, fallible function over a list, left to right.\<close>

fun traverse :: "('a \<Rightarrow> 's \<Rightarrow> 'e + 'b \<times> 's) \<Rightarrow> 'a list \<Rightarrow> 's \<Rightarrow> 'e + 'b list \<times> 's" where
  "traverse f [] s = Inr ([], s)"
| "traverse f (x # xs) s =
     (case f x s of
        Inl e \<Rightarrow> Inl e
      | Inr (y, s1) \<Rightarrow>
          (case traverse f xs s1 of
             Inl e \<Rightarrow> Inl e
           | Inr (ys, s2) \<Rightarrow> Inr (y # ys, s2)))"

lemma traverse_cong [fundef_cong]:
  "xs = ys \<Longrightarrow> s = t \<Longrightarrow> (\<And>x u. x \<in> set ys \<Longrightarrow> f x u = g x u) \<Longrightarrow>
   traverse f xs s = traverse g ys t"
  by (induction ys arbitrary: xs s t) (auto split: sum.splits)

definition on_snd :: "('a \<Rightarrow> 's \<Rightarrow> 'e + 'b \<times> 's) \<Rightarrow> 'k \<times> 'a \<Rightarrow> 's \<Rightarrow> 'e + ('k \<times> 'b) \<times> 's" where
  "on_snd f kv s = (case f (snd kv) s of Inl e \<Rightarrow> Inl e | Inr (y, s1) \<Rightarrow> Inr ((fst kv, y), s1))"

lemma on_snd_cong [fundef_cong]:
  "kv = kv' \<Longrightarrow> s = t \<Longrightarrow> (\<And>u. f (snd kv') u = g (snd kv') u) \<Longrightarrow> on_snd f kv s = on_snd g kv' t"
  by (simp add: on_snd_def)

text \<open>The measure that decreases along the traversal of \<open>JSON_stringify\<close>.\<close>

fun mu :: "'b jsval \<Rightarrow> nat" where
  "mu (JArr xs) = Suc (sum_list (map mu xs))"
| "mu (JObj kvs) = Suc (sum_list (map (\<lambda>kv. mu (snd kv)) kvs))"
| "mu (JBuf b) = 3"
| "mu _ = 0"

lemma mu_member: "x \<in> set xs \<Longrightarrow> mu x \<le> sum_list (map mu xs)"
  by (induction xs) auto

lemma mu_member_snd: "kv \<in> set kvs \<Longrightarrow> mu (snd kv) \<le> sum_list (map (\<lambda>kv. mu (snd kv)) kvs)"
  by (induction kvs) auto

lemma mu_byte_array: "sum_list (map (\<lambda>b. mu (JNum (f b))) bs) = 0"
  by (induction bs) auto

lemma mu_toJSON_arr: "JArr xs = toJSON v \<Longrightarrow> x \<in> set xs \<Longrightarrow> mu x < mu v"
  by (cases v) (auto dest: mu_member simp: less_Suc_eq_le)

lemma mu_toJSON_obj: "JObj kvs = toJSON v \<Longrightarrow> kv \<in> set kvs \<Longrightarrow> mu (snd kv) < mu v"
  by (cases v) (auto dest: mu_member_snd simp: less_Suc_eq_le mu_byte_array comp_def)

lemma mu_toJSON_pos: "get_prop k (toJSON v) = Some d \<Longrightarrow> 0 < mu v"
  by (cases v) auto

lemma replacerFunction_cases:
  assumes "replacerFunction pf w s = Inr (v2, s2)"
  shows "(v2 = w \<and> s2 = s) \<or> (\<exists>i n d. v2 = ExternalBuffer i n \<and> get_prop ''data'' w = Some d)"
  using assms
  by (auto simp: replacerFunction_def split: prod.splits option.splits if_splits sum.splits)

text \<open>
  \<^verbatim>\<open>JSON.stringify(data, replacerFunction)\<close>, as the language defines it: at each
  node \<^verbatim>\<open>toJSON\<close> is applied, then the replacer, and then the elements of the
  array or the properties of the object that the replacer returned are
  serialized in order. The result is the document as a tree; the text written to
  the file is \<open>json_text\<close> of it, and \<^verbatim>\<open>JSON.parse\<close> of that text gives the
  tree back.
\<close>

function JSON_stringify ::
  "platform \<Rightarrow> bytes jsval \<Rightarrow> ext_state \<Rightarrow> error + bytes jsval \<times> ext_state" where
  "JSON_stringify pf v s =
     (case replacerFunction pf (toJSON v) s of
        Inl e \<Rightarrow> Inl e
      | Inr (v2, s2) \<Rightarrow>
          (case v2 of
             JArr xs \<Rightarrow>
               (case traverse (JSON_stringify pf) xs s2 of
                  Inl e \<Rightarrow> Inl e
                | Inr (ys, s3) \<Rightarrow> Inr (JArr ys, s3))
           | JObj kvs \<Rightarrow>
               (case traverse (on_snd (JSON_stringify pf)) kvs s2 of
                  Inl e \<Rightarrow> Inl e
                | Inr (kys, s3) \<Rightarrow> Inr (JObj kys, s3))
           | _ \<Rightarrow> Inr (v2, s2)))"
  by pat_completeness auto

termination
proof (relation "measure (\<lambda>(pf, v, s). mu v)", goal_cases)
  case 1
  show ?case by simp
next
  case (2 pf v s x2 v2 s2 xs x u)
  from 2(1,2) have "replacerFunction pf (toJSON v) s = Inr (v2, s2)" by simp
  from replacerFunction_cases [OF this] 2(3,4) show ?case
    by (auto dest: mu_toJSON_arr mu_toJSON_arr [OF sym] simp: ExternalBuffer_def)
next
  case (3 pf v s x2 v2 s2 kvs kv u)
  from 3(1,2) have "replacerFunction pf (toJSON v) s = Inr (v2, s2)" by simp
  from replacerFunction_cases [OF this] show ?case
  proof
    assume "v2 = toJSON v \<and> s2 = s"
    with 3(3,4) show ?thesis by (auto dest: mu_toJSON_obj [OF sym])
  next
    assume "\<exists>i n d. v2 = ExternalBuffer i n \<and> get_prop ''data'' (toJSON v) = Some d"
    then obtain i n d where v2: "v2 = ExternalBuffer i n" and "get_prop ''data'' (toJSON v) = Some d"
      by blast
    then have "0 < mu v" by (auto dest: mu_toJSON_pos)
    with v2 3(3,4) show ?thesis by (auto simp: ExternalBuffer_def)
  qed
qed

declare JSON_stringify.simps [simp del]

section \<open>The text of a document\<close>

text \<open>Numbers are printed in decimal, as the language prints an integer.\<close>

function show_nat :: "nat \<Rightarrow> string" where
  "show_nat n =
     (if n < 10 then [''0123456789'' ! n]
      else show_nat (n div 10) @ [''0123456789'' ! (n mod 10)])"
  by pat_completeness auto

termination
  by (relation "measure id") auto

declare show_nat.simps [simp del]

definition show_int :: "int \<Rightarrow> string" where
  "show_int n = (if n < 0 then ''-'' @ show_nat (nat (- n)) else show_nat (nat n))"

fun join :: "string \<Rightarrow> string list \<Rightarrow> string" where
  "join sep [] = []"
| "join sep [x] = x"
| "join sep (x # y # ys) = x @ sep @ join sep (y # ys)"

text \<open>
  A string of the document: between double quotes (code 0x22), with the double
  quote, the backslash (code 0x5C) and the control characters escaped.
\<close>

definition escape_char :: "char \<Rightarrow> string" where
  "escape_char c =
     (if c = CHR 0x22 then [CHR 0x5C, CHR 0x22]
      else if c = CHR 0x5C then [CHR 0x5C, CHR 0x5C]
      else if c = CHR 0x08 then [CHR 0x5C, CHR ''b'']
      else if c = CHR 0x0C then [CHR 0x5C, CHR ''f'']
      else if c = CHR 0x0A then [CHR 0x5C, CHR ''n'']
      else if c = CHR 0x0D then [CHR 0x5C, CHR ''r'']
      else if c = CHR 0x09 then [CHR 0x5C, CHR ''t'']
      else if (of_char c :: nat) < 32 then
        [CHR 0x5C, CHR ''u'', CHR ''0'', CHR ''0'',
         ''0123456789abcdef'' ! (of_char c div 16), ''0123456789abcdef'' ! (of_char c mod 16)]
      else [c])"

definition quote_text :: "string \<Rightarrow> string" where
  "quote_text s = [CHR 0x22] @ concat (map escape_char s) @ [CHR 0x22]"

fun json_text :: "bytes jsval \<Rightarrow> string" where
  "json_text JNull = ''null''"
| "json_text (JBool b) = (if b then ''true'' else ''false'')"
| "json_text (JNum n) = show_int n"
| "json_text (JStr s) = quote_text s"
| "json_text (JArr xs) = ''['' @ join '','' (map json_text xs) @ '']''"
| "json_text (JObj kvs) =
     ''{'' @ join '','' (map (\<lambda>kv. quote_text (fst kv) @ '':'' @ json_text (snd kv)) kvs) @ ''}''"
| "json_text (JBuf bs) =
     ''{'' @ quote_text ''type'' @ '':'' @ quote_text ''Buffer'' @ '','' @ quote_text ''data'' @ '':[''
       @ join '','' (map (\<lambda>b. show_nat (unat b)) bs) @ '']}''"

section \<open>The metadata index\<close>

record entry =
  path_e :: string
  size_e :: int
  created :: int

record metadata =
  size_m :: int
  entries :: "(string \<times> entry) list"

text \<open>
  \<^verbatim>\<open>metadata.entries\<close> is an object used as a dictionary: the list holds its
  properties in property order, which is the order of \<^verbatim>\<open>Object.values\<close>. The
  language keeps the keys that are array indices (canonical decimal numbers below
  \<open>2^32 - 1\<close>) first, in ascending order, and every other key in the order of
  insertion.
\<close>

definition read_nat :: "string \<Rightarrow> nat" where
  "read_nat k = foldl (\<lambda>n c. 10 * n + (of_char c - 48)) 0 k"

definition array_index :: "string \<Rightarrow> nat option" where
  "array_index k =
     (if k \<noteq> [] \<and> list_all (\<lambda>c. c \<in> set ''0123456789'') k \<and> (k = ''0'' \<or> hd k \<noteq> CHR ''0'')
         \<and> read_nat k < 2 ^ 32 - 1
      then Some (read_nat k) else None)"

fun insert_index :: "nat \<Rightarrow> string \<times> 'a \<Rightarrow> (string \<times> 'a) list \<Rightarrow> (string \<times> 'a) list" where
  "insert_index n new [] = [new]"
| "insert_index n new (kv # kvs) =
     (case array_index (fst kv) of
        Some m \<Rightarrow> if m < n then kv # insert_index n new kvs else new # kv # kvs
      | None \<Rightarrow> new # kv # kvs)"

text \<open>
  The assignment \<^verbatim>\<open>obj[k] = v\<close> and the statement \<^verbatim>\<open>delete obj[k]\<close>. An
  assignment to a key that the object has replaces the value in place. An
  assignment to the key \<^verbatim>\<open>__proto__\<close>, when the object has no property of that
  name, goes to the setter it inherits: it changes the prototype at most and adds
  no property, so the properties are as before.
\<close>

definition obj_set :: "string \<Rightarrow> 'a \<Rightarrow> (string \<times> 'a) list \<Rightarrow> (string \<times> 'a) list" where
  "obj_set k v kvs =
     (if map_of kvs k \<noteq> None then map (\<lambda>kv. if fst kv = k then (k, v) else kv) kvs
      else if k = ''__proto__'' then kvs
      else case array_index k of
             Some n \<Rightarrow> insert_index n (k, v) kvs
           | None \<Rightarrow> kvs @ [(k, v)])"

definition obj_delete :: "string \<Rightarrow> (string \<times> 'a) list \<Rightarrow> (string \<times> 'a) list" where
  "obj_delete k kvs = filter (\<lambda>kv. fst kv \<noteq> k) kvs"

definition Object_values :: "(string \<times> 'a) list \<Rightarrow> 'a list" where
  "Object_values kvs = map snd kvs"

section \<open>The file system\<close>

text \<open>
  A file holds what was last stored in it: the index, a primary document or the
  raw bytes of a segment. The file system has no directories and no failure other
  than \<open>ENOENT\<close> on a missing file; \<open>io_log\<close> records every call made to it,
  in the order in which the model makes them.
\<close>

datatype fcontent = Meta metadata | Doc "bytes jsval" | Bin bytes

datatype io_event = ReadFile string | WriteFile string | Unlink string | Open string

record fs =
  files :: "(string, fcontent) fmap"
  io_log :: "io_event list"

definition readFile :: "string \<Rightarrow> fs \<Rightarrow> (error + fcontent) \<times> fs" where
  "readFile p st =
     ((case fmlookup (files st) p of None \<Rightarrow> Inl ENOENT | Some c \<Rightarrow> Inr c),
      st\<lparr>io_log := io_log st @ [ReadFile p]\<rparr>)"

definition writeFile :: "string \<Rightarrow> fcontent \<Rightarrow> fs \<Rightarrow> fs" where
  "writeFile p c st = st\<lparr>files := fmupd p c (files st), io_log := io_log st @ [WriteFile p]\<rparr>"

definition unlink :: "string \<Rightarrow> fs \<Rightarrow> (error + unit) \<times> fs" where
  "unlink p st =
     (case fmlookup (files st) p of
        None \<Rightarrow> (Inl ENOENT, st\<lparr>io_log := io_log st @ [Unlink p]\<rparr>)
      | Some c \<Rightarrow> (Inr (), st\<lparr>files := fmdrop p (files st), io_log := io_log st @ [Unlink p]\<rparr>))"

definition metaFilePath :: "string \<Rightarrow> string" where
  "metaFilePath cachePath = cachePath @ ''/meta.json''"

definition readMetaFile :: "string \<Rightarrow> fs \<Rightarrow> (error + metadata) \<times> fs" where
  "readMetaFile cachePath st =
     (case readFile (metaFilePath cachePath) st of
        (Inl err, st1) \<Rightarrow>
          if err = ENOENT then (Inr \<lparr>size_m = 0, entries = []\<rparr>, st1) else (Inl err, st1)
      | (Inr (Meta metadata), st1) \<Rightarrow> (Inr metadata, st1)
      | (Inr _, st1) \<Rightarrow> (Inl MetaNotValidJson, st1))"

definition writeMetaFile :: "string \<Rightarrow> metadata \<Rightarrow> fs \<Rightarrow> fs" where
  "writeMetaFile cachePath metadata st = writeFile (metaFilePath cachePath) (Meta metadata) st"

section \<open>\<^verbatim>\<open>exports.delete\<close>\<close>

text \<open>The loop of lines 147 to 149, from index \<open>i\<close> on, with the \<^verbatim>\<open>catch\<close> of lines 150 to 156.\<close>

function unlink_bins :: "string \<Rightarrow> nat \<Rightarrow> fs \<Rightarrow> (error + unit) \<times> fs" where
  "unlink_bins path i st =
     (case unlink (path @ ''-'' @ show_nat i @ ''.bin'') st of
        (Inl err, st1) \<Rightarrow> if err = ENOENT then (Inr (), st1) else (Inl err, st1)
      | (Inr u, st1) \<Rightarrow> unlink_bins path (Suc i) st1)"
  by pat_completeness auto

termination
proof (relation "measure (\<lambda>(path, i, st). card (fmdom' (files st)))", goal_cases)
  case 1
  show ?case by simp
next
  case (2 path i st r st1 u)
  then have "fmlookup (files st) (path @ ''-'' @ show_nat i @ ''.bin'') \<noteq> None"
    and "files st1 = fmdrop (path @ ''-'' @ show_nat i @ ''.bin'') (files st)"
    by (auto simp: unlink_def split: option.splits)
  then have "path @ ''-'' @ show_nat i @ ''.bin'' \<in> fmdom' (files st)"
    and "fmdom' (files st1) = fmdom' (files st) - {path @ ''-'' @ show_nat i @ ''.bin''}"
    by (auto simp: fmlookup_dom'_iff)
  then have "card (fmdom' (files st1)) < card (fmdom' (files st))"
    by (metis card_Diff1_less finite_fmdom')
  then show ?case by simp
qed

declare unlink_bins.simps [simp del]

text \<open>
  \<open>cachePath\<close> is \<open>None\<close> when the caller passes no \<^verbatim>\<open>path\<close>; the test
  \<^verbatim>\<open>if (cachePath)\<close> also fails on the empty string. Line 162 reads
  \<^verbatim>\<open>metadata.entries[path].size\<close>, a \<open>TypeError\<close> when the index has no entry
  for \<open>path\<close>.
\<close>

definition delete :: "string \<Rightarrow> string option \<Rightarrow> fs \<Rightarrow> (error + unit) \<times> fs" where
  "delete path cachePath st =
     (case unlink (path @ ''.json'') st of
        (Inl err, st1) \<Rightarrow> (Inl err, st1)
      | (Inr u, st1) \<Rightarrow>
          (case unlink_bins path 0 st1 of
             (Inl err, st2) \<Rightarrow> (Inl err, st2)
           | (Inr u, st2) \<Rightarrow>
               (case cachePath of
                  None \<Rightarrow> (Inr (), st2)
                | Some cp \<Rightarrow>
                    if cp = [] then (Inr (), st2)
                    else
                      (case readMetaFile cp st2 of
                         (Inl err, st3) \<Rightarrow> (Inl err, st3)
                       | (Inr metadata, st3) \<Rightarrow>
                           (case map_of (entries metadata) path of
                              None \<Rightarrow> (Inl TypeError, st3)
                            | Some e \<Rightarrow>
                                (Inr (),
                                 writeMetaFile cp (metadata\<lparr>size_m := size_m metadata - size_e e\<rparr>) st3))))))"

section \<open>\<^verbatim>\<open>reduceCacheSize\<close>\<close>

text \<open>
  The loop of lines 43 to 49. \<^verbatim>\<open>shift\<close> on the empty list gives
  \<^verbatim>\<open>undefined\<close>, and reading \<^verbatim>\<open>entry.size\<close> of it is a \<open>TypeError\<close>.
\<close>

fun reduce_loop ::
  "entry list \<Rightarrow> entry list \<Rightarrow> int \<Rightarrow> int \<Rightarrow> metadata \<Rightarrow> error + entry list \<times> metadata" where
  "reduce_loop entriesByDate entriesToDelete sizeDeleted bytesToReduce metadata =
     (if sizeDeleted < bytesToReduce then
        (case entriesByDate of
           [] \<Rightarrow> Inl TypeError
         | e # rest \<Rightarrow>
             reduce_loop rest (entriesToDelete @ [e]) (sizeDeleted + size_e e) bytesToReduce
               (metadata\<lparr>entries := obj_delete (path_e e) (entries metadata),
                         size_m := size_m metadata - size_e e\<rparr>))
      else Inr (entriesToDelete, metadata))"

declare reduce_loop.simps [simp del]

text \<open>
  \<^verbatim>\<open>Promise.all\<close> over tasks that have all been started: every task runs, and
  the result is the first failure if there is one. The model runs the tasks one
  after the other, in list order.
\<close>

fun Promise_all :: "(fs \<Rightarrow> (error + 'a) \<times> fs) list \<Rightarrow> fs \<Rightarrow> (error + 'a list) \<times> fs" where
  "Promise_all [] st = (Inr [], st)"
| "Promise_all (t # ts) st =
     (case t st of
        (r, st1) \<Rightarrow>
          (case Promise_all ts st1 of
             (rs, st2) \<Rightarrow>
               ((case r of
                   Inl err \<Rightarrow> Inl err
                 | Inr x \<Rightarrow> (case rs of Inl err \<Rightarrow> Inl err | Inr xs \<Rightarrow> Inr (x # xs))),
                st2)))"

definition reduceCacheSize :: "metadata \<Rightarrow> int \<Rightarrow> fs \<Rightarrow> (error + metadata) \<times> fs" where
  "reduceCacheSize metadata bytesToReduce st =
     (let entriesByDate = sort_key created (Object_values (entries metadata)) in
        (case reduce_loop entriesByDate [] 0 bytesToReduce metadata of
           Inl err \<Rightarrow> (Inl err, st)
         | Inr (entriesToDelete, metadata1) \<Rightarrow>
             (case Promise_all (map (\<lambda>e. delete (path_e e) None) entriesToDelete) st of
                (Inl err, st1) \<Rightarrow> (Inl err, st1)
              | (Inr us, st1) \<Rightarrow> (Inr metadata1, st1))))"

section \<open>\<^verbatim>\<open>exports.write\<close>\<close>

text \<open>
  \<open>now\<close> is the value of \<^verbatim>\<open>Date.now()\<close> at line 100. The segment files are
  written in the order of \<^verbatim>\<open>externalBuffers\<close>. The message of line 81 reads
  \<^verbatim>\<open>data.key\<close>, a \<open>TypeError\<close> when \<open>data\<close> is \<^verbatim>\<open>null\<close> and
  \<^verbatim>\<open>undefined\<close> for every other value without such a property.
\<close>

definition segment_path :: "string \<Rightarrow> string \<Rightarrow> string" where
  "segment_path path index = path @ ''-'' @ index @ ''.bin''"

definition "write" ::
  "platform \<Rightarrow> string \<Rightarrow> bytes jsval \<Rightarrow> string \<Rightarrow> int \<Rightarrow> int \<Rightarrow> fs \<Rightarrow> (error + unit) \<times> fs" where
  "write pf path data cachePath maxsize now st =
     (case JSON_stringify pf data ([], 0) of
        Inl err \<Rightarrow> (Inl err, st)
      | Inr (dataString, externalBuffers, externalBuffersLength) \<Rightarrow>
          (let newDataLength = int (length (json_text dataString)) + int externalBuffersLength in
             if newDataLength > maxsize then
               (Inl (if data = JNull then TypeError
                     else NotSettingCacheValue newDataLength maxsize), st)
             else
               (case readMetaFile cachePath st of
                  (Inl err, st1) \<Rightarrow> (Inl err, st1)
                | (Inr metadata, st1) \<Rightarrow>
                    (let newCacheSize = size_m metadata + newDataLength in
                       (case (if newCacheSize > maxsize
                              then reduceCacheSize metadata (newCacheSize - maxsize) st1
                              else (Inr metadata, st1)) of
                          (Inl err, st2) \<Rightarrow> (Inl err, st2)
                        | (Inr metadata2, st2) \<Rightarrow>
                            (let st3 = writeFile (path @ ''.json'') (Doc dataString) st2;
                                 metadata3 = metadata2
                                   \<lparr>size_m := size_m metadata2 + newDataLength,
                                    entries := obj_set path
                                      \<lparr>path_e = path, size_e = newDataLength, created = now\<rparr>
                                      (entries metadata2)\<rparr>;
                                 st4 = writeMetaFile cachePath metadata3 st3;
                                 st5 = fold (\<lambda>externalBuffer.
                                               writeFile (segment_path path (show_nat (fst externalBuffer)))
                                                 (Bin (snd externalBuffer)))
                                         externalBuffers st4
                             in (Inr (), st5)))))))"

section \<open>Decoding: \<^verbatim>\<open>JSON.parse\<close> with \<^verbatim>\<open>bufferReceiver\<close>\<close>

text \<open>
  While \<^verbatim>\<open>read\<close> parses, a buffer is its current bytes together with its
  position in \<^verbatim>\<open>externalBuffers\<close> when \<^verbatim>\<open>bufferReceiver\<close> allocated it
  for a placeholder (\<open>None\<close> for every other buffer): the buffer object is shared
  between the parsed value and that list, and is filled through the list after
  parsing. An element of \<^verbatim>\<open>externalBuffers\<close> is the segment index and the
  length of its buffer. \<^verbatim>\<open>Buffer.alloc\<close> gives zero bytes and rejects a negative
  size; a limit on the size of an allocation is outside the model.
\<close>

type_synonym pbuf = "bytes \<times> nat option"

definition bufferReceiver ::
  "platform \<Rightarrow> pbuf jsval \<Rightarrow> (int \<times> nat) list \<Rightarrow> error + pbuf jsval \<times> (int \<times> nat) list" where
  "bufferReceiver pf v externalBuffers =
     (case (if truthy v \<and> get_prop ''type'' v = Some (JStr ''Buffer'') then get_prop ''data'' v else None) of
        Some d \<Rightarrow>
          if truthy d then
            (case Buffer_from pf (map_jsval fst d) of
               Inl err \<Rightarrow> Inl err
             | Inr bs \<Rightarrow> Inr (JBuf (bs, None), externalBuffers))
          else Inr (v, externalBuffers)
      | None \<Rightarrow>
          if truthy v \<and> get_prop ''type'' v = Some (JStr ''ExternalBuffer'') then
            (case (get_prop ''index'' v, get_prop ''size'' v) of
               (Some (JNum i), Some (JNum n)) \<Rightarrow>
                 if n < 0 then Inl RangeError
                 else Inr (JBuf (replicate (nat n) 0, Some (length externalBuffers)),
                           externalBuffers @ [(i, nat n)])
             | _ \<Rightarrow> Inr (v, externalBuffers))
          else Inr (v, externalBuffers))"

text \<open>
  The reviver is called bottom-up: on the elements of an array or the properties
  of an object, in order, and then on the array or object rebuilt from the results.
\<close>

fun revive ::
  "platform \<Rightarrow> pbuf jsval \<Rightarrow> (int \<times> nat) list \<Rightarrow> error + pbuf jsval \<times> (int \<times> nat) list" where
  "revive pf (JArr xs) s =
     (case traverse (revive pf) xs s of
        Inl err \<Rightarrow> Inl err
      | Inr (ys, s1) \<Rightarrow> bufferReceiver pf (JArr ys) s1)"
| "revive pf (JObj kvs) s =
     (case traverse (on_snd (revive pf)) kvs s of
        Inl err \<Rightarrow> Inl err
      | Inr (kys, s1) \<Rightarrow> bufferReceiver pf (JObj kys) s1)"
| "revive pf v s = bufferReceiver pf v s"

definition JSON_parse :: "platform \<Rightarrow> bytes jsval \<Rightarrow> error + pbuf jsval \<times> (int \<times> nat) list" where
  "JSON_parse pf dataString = revive pf (map_jsval (\<lambda>bs. (bs, None)) dataString) []"

section \<open>\<^verbatim>\<open>exports.read\<close>\<close>

text \<open>The text of the index file, and the bytes of a file (UTF-8 for text).\<close>

definition entry_json :: "entry \<Rightarrow> bytes jsval" where
  "entry_json e = JObj [(''path'', JStr (path_e e)), (''size'', JNum (size_e e)), (''created'', JNum (created e))]"

definition meta_json :: "metadata \<Rightarrow> bytes jsval" where
  "meta_json m =
     JObj [(''size'', JNum (size_m m)),
           (''entries'', JObj (map (\<lambda>kv. (fst kv, entry_json (snd kv))) (entries m)))]"

definition utf8 :: "string \<Rightarrow> bytes" where
  "utf8 s =
     concat (map (\<lambda>c. if (of_char c :: nat) < 128 then [of_nat (of_char c)]
                       else [of_nat (192 + of_char c div 64), of_nat (128 + of_char c mod 64)]) s)"

fun file_bytes :: "fcontent \<Rightarrow> bytes" where
  "file_bytes (Bin bs) = bs"
| "file_bytes (Doc d) = utf8 (json_text d)"
| "file_bytes (Meta m) = utf8 (json_text (meta_json m))"

text \<open>
  Lines 135 to 137 for one element of \<^verbatim>\<open>externalBuffers\<close>: \<^verbatim>\<open>fs.open\<close> fails
  on a missing file, and \<^verbatim>\<open>fs.read\<close> copies at most \<^verbatim>\<open>buffer.length\<close>
  bytes from the start of the file into the buffer, which holds zeros. The result
  is the buffer after the call.
\<close>

definition read_segment :: "string \<Rightarrow> int \<times> nat \<Rightarrow> fs \<Rightarrow> (error + bytes) \<times> fs" where
  "read_segment path externalBuffer st =
     (let p = segment_path path (show_int (fst externalBuffer));
          st1 = st\<lparr>io_log := io_log st @ [Open p]\<rparr>
      in case fmlookup (files st) p of
           None \<Rightarrow> (Inl ENOENT, st1)
         | Some c \<Rightarrow>
             (Inr (take (snd externalBuffer) (file_bytes c)
                     @ replicate (snd externalBuffer - length (file_bytes c)) 0), st1))"

text \<open>The value that \<^verbatim>\<open>read\<close> returns: the parsed value with the buffers as filled.\<close>

definition fill :: "bytes list \<Rightarrow> pbuf \<Rightarrow> bytes" where
  "fill filled b =
     (case snd b of
        None \<Rightarrow> fst b
      | Some k \<Rightarrow> if k < length filled then filled ! k else fst b)"

text \<open>
  A primary document file holds a document, or the index when the path is that of
  the index file; the raw bytes of a segment are taken not to be JSON text.
\<close>

definition read :: "platform \<Rightarrow> string \<Rightarrow> fs \<Rightarrow> (error + bytes jsval) \<times> fs" where
  "read pf path st =
     (case readFile (path @ ''.json'') st of
        (Inl err, st1) \<Rightarrow> (Inl err, st1)
      | (Inr c, st1) \<Rightarrow>
          (case (case c of Doc d \<Rightarrow> Some d | Meta m \<Rightarrow> Some (meta_json m) | Bin bs \<Rightarrow> None) of
             None \<Rightarrow> (Inl SyntaxError, st1)
           | Some dataString \<Rightarrow>
               (case JSON_parse pf dataString of
                  Inl err \<Rightarrow> (Inl err, st1)
                | Inr (data, externalBuffers) \<Rightarrow>
                    (case Promise_all (map (read_segment path) externalBuffers) st1 of
                       (Inl err, st2) \<Rightarrow> (Inl err, st2)
                     | (Inr filled, st2) \<Rightarrow> (Inr (map_jsval (fill filled) data), st2)))))"

section \<open>Notions used in the statements\<close>

text \<open>
  The closure state of the replacer is consistent when the running length is the
  sum of the lengths of the segments and the segments are numbered from 0 in order.
\<close>

definition ext_ok :: "ext_state \<Rightarrow> bool" where
  "ext_ok s = (snd s = sum_list (map (\<lambda>b. length (snd b)) (fst s))
               \<and> map fst (fst s) = [0..<length (fst s)])"

text \<open>Invariant I1 of the index, and the index that the index file of a cache root holds.\<close>

definition index_invariant :: "metadata \<Rightarrow> bool" where
  "index_invariant m = (size_m m = sum_list (map size_e (Object_values (entries m))))"

definition persisted_index :: "string \<Rightarrow> fs \<Rightarrow> metadata option" where
  "persisted_index cachePath st =
     (case fmlookup (files st) (metaFilePath cachePath) of Some (Meta m) \<Rightarrow> Some m | _ \<Rightarrow> None)"


definition sizes :: "entry list \<Rightarrow> int" where
  "sizes es = sum_list (map size_e es)"




text \<open>
  The buffer of a placeholder once \<^verbatim>\<open>read\<close> has filled it from a file system
  where its segment file exists: the start of the file, then the zeros left from
  the allocation.
\<close>

definition buffer_after_read :: "(string, fcontent) fmap \<Rightarrow> string \<Rightarrow> int \<times> nat \<Rightarrow> bytes" where
  "buffer_after_read fls path externalBuffer =
     (case fmlookup fls (segment_path path (show_int (fst externalBuffer))) of
        None \<Rightarrow> replicate (snd externalBuffer) 0
      | Some c \<Rightarrow> take (snd externalBuffer) (file_bytes c)
                    @ replicate (snd externalBuffer - length (file_bytes c)) 0)"

text \<open>
  The plain objects that the replacer and the reviver take for a buffer or for a
  placeholder: \<open>buffer_shaped\<close> is the test of line 118 (and, without the length,
  of line 61), \<open>placeholder_shaped\<close> the test of line 120, and \<open>byte_data\<close> gives
  the bytes of an object whose \<^verbatim>\<open>data\<close> is an array of integers.
\<close>

definition buffer_shaped :: "'b jsval \<Rightarrow> bool" where
  "buffer_shaped v =
     (get_prop ''type'' v = Some (JStr ''Buffer'')
      \<and> (case get_prop ''data'' v of Some d \<Rightarrow> truthy d | None \<Rightarrow> False))"

definition placeholder_shaped :: "'b jsval \<Rightarrow> bool" where
  "placeholder_shaped v =
     (get_prop ''type'' v = Some (JStr ''ExternalBuffer'')
      \<and> (case get_prop ''index'' v of Some i \<Rightarrow> is_JNum i | None \<Rightarrow> False)
      \<and> (case get_prop ''size'' v of Some n \<Rightarrow> is_JNum n | None \<Rightarrow> False))"

definition byte_data :: "'b jsval \<Rightarrow> bytes option" where
  "byte_data v =
     (case get_prop ''data'' v of
        Some (JArr xs) \<Rightarrow>
          if list_all is_JNum xs then Some (map (\<lambda>x. word_of_int (the_JNum x)) xs) else None
      | _ \<Rightarrow> None)"

text \<open>
  \<open>clean\<close>: no plain object of the value is buffer-shaped or placeholder-shaped.
  \<open>supported\<close>: every buffer-shaped plain object has an array of integers as its
  \<^verbatim>\<open>data\<close>, and no plain object is placeholder-shaped. \<open>read_back\<close> is the
  value in which every buffer-shaped plain object is replaced by the buffer of its
  bytes. \<open>large_buffers\<close> lists, in the order of a depth-first traversal, the
  buffers and buffer-shaped objects of at least 1024 bytes.
\<close>

fun supported :: "bytes jsval \<Rightarrow> bool" where
  "supported (JArr xs) = list_all supported xs"
| "supported (JObj kvs) =
     (list_all (\<lambda>kv. supported (snd kv)) kvs
      \<and> (if buffer_shaped (JObj kvs) then byte_data (JObj kvs) \<noteq> None
          else \<not> placeholder_shaped (JObj kvs)))"
| "supported v = True"

fun read_back :: "bytes jsval \<Rightarrow> bytes jsval" where
  "read_back (JArr xs) = JArr (map read_back xs)"
| "read_back (JObj kvs) =
     (case (if buffer_shaped (JObj kvs) then byte_data (JObj kvs) else None) of
        Some bs \<Rightarrow> JBuf bs
      | None \<Rightarrow> JObj (map (\<lambda>kv. (fst kv, read_back (snd kv))) kvs))"
| "read_back v = v"

fun clean :: "bytes jsval \<Rightarrow> bool" where
  "clean (JArr xs) = list_all clean xs"
| "clean (JObj kvs) =
     (list_all (\<lambda>kv. clean (snd kv)) kvs
      \<and> \<not> buffer_shaped (JObj kvs) \<and> \<not> placeholder_shaped (JObj kvs))"
| "clean v = True"

fun large_buffers :: "bytes jsval \<Rightarrow> bytes list" where
  "large_buffers (JBuf bs) = (if 1024 \<le> length bs then [bs] else [])"
| "large_buffers (JArr xs) = concat (map large_buffers xs)"
| "large_buffers (JObj kvs) =
     (case (if buffer_shaped (JObj kvs) then byte_data (JObj kvs) else None) of
        Some bs \<Rightarrow> if 1024 \<le> length bs then [bs] else concat (map (\<lambda>kv. large_buffers (snd kv)) kvs)
      | None \<Rightarrow> concat (map (\<lambda>kv. large_buffers (snd kv)) kvs))"
| "large_buffers v = []"

text \<open>
  Notions of the proofs: the segments with their numbers from \<open>off\<close> on, the
  elements they leave in the \<^verbatim>\<open>externalBuffers\<close> of \<^verbatim>\<open>read\<close>, a list of
  filled buffers that holds given segments from position \<open>off\<close> on, a document as
  the reviver first sees it, and what it means that a value (a list of values) is
  encoded to a document from which the reviver and the filling give \<open>read_back\<close>.
\<close>

definition numbered :: "nat \<Rightarrow> bytes list \<Rightarrow> (nat \<times> bytes) list" where
  "numbered off bss = zip [off..<off + length bss] bss"

definition pending :: "nat \<Rightarrow> bytes list \<Rightarrow> (int \<times> nat) list" where
  "pending off bss = map (\<lambda>ib. (int (fst ib), length (snd ib))) (numbered off bss)"

definition agree :: "bytes list \<Rightarrow> nat \<Rightarrow> bytes list \<Rightarrow> bool" where
  "agree filled off bss = (take (length bss) (drop off filled) = bss)"

definition emb :: "bytes jsval \<Rightarrow> pbuf jsval" where
  "emb d = map_jsval (\<lambda>bs. (bs, None)) d"

definition is_leaf :: "'b jsval \<Rightarrow> bool" where
  "is_leaf v = (case v of JArr xs \<Rightarrow> False | JObj kvs \<Rightarrow> False | JBuf b \<Rightarrow> False | _ \<Rightarrow> True)"

definition decodes :: "platform \<Rightarrow> nat \<Rightarrow> bytes jsval \<Rightarrow> bytes jsval \<Rightarrow> bool" where
  "decodes pf off d v =
     (\<forall>pend. \<exists>t. revive pf (emb d) pend = Inr (t, pend @ pending off (large_buffers v))
        \<and> (\<forall>filled. agree filled (length pend) (large_buffers v) \<longrightarrow>
              map_jsval (fill filled) t = read_back v))"

definition roundtrips :: "platform \<Rightarrow> bytes jsval \<Rightarrow> bool" where
  "roundtrips pf v =
     (\<forall>ebs n. \<exists>d.
        JSON_stringify pf v (ebs, n) =
          Inr (d, ebs @ numbered (length ebs) (large_buffers v),
               n + sum_list (map length (large_buffers v)))
        \<and> decodes pf (length ebs) d v)"

definition decodes_list :: "platform \<Rightarrow> nat \<Rightarrow> bytes jsval list \<Rightarrow> bytes jsval list \<Rightarrow> bool" where
  "decodes_list pf off ds xs =
     (\<forall>pend. \<exists>ts. traverse (revive pf) (map emb ds) pend
                     = Inr (ts, pend @ pending off (concat (map large_buffers xs)))
        \<and> (\<forall>filled. agree filled (length pend) (concat (map large_buffers xs)) \<longrightarrow>
              map (map_jsval (fill filled)) ts = map read_back xs))"

definition roundtrips_list :: "platform \<Rightarrow> bytes jsval list \<Rightarrow> bool" where
  "roundtrips_list pf xs =
     (\<forall>ebs n. \<exists>ds.
        traverse (JSON_stringify pf) xs (ebs, n) =
          Inr (ds, ebs @ numbered (length ebs) (concat (map large_buffers xs)),
               n + sum_list (map length (concat (map large_buffers xs))))
        \<and> decodes_list pf (length ebs) ds xs)"

section \<open>Example states\<close>

definition example_platform :: platform where
  "example_platform =
     \<lparr>Buffer_from_other = (\<lambda>d. Inl TypeError), length_ge_1024_other = (\<lambda>d. False)\<rparr>"

definition empty_fs :: fs where
  "empty_fs = \<lparr>files = fmempty, io_log = []\<rparr>"

definition example_index :: metadata where
  "example_index =
     \<lparr>size_m = 20, entries = [(''c/a'', \<lparr>path_e = ''c/a'', size_e = 10, created = 100\<rparr>)]\<rparr>"

definition example_fs :: fs where
  "example_fs =
     \<lparr>files = fmupd ''c/meta.json'' (Meta example_index)
                (fmupd ''c/a.json'' (Doc (JNum 1234567890)) fmempty),
      io_log = []\<rparr>"



definition after_first_write :: fs where
  "after_first_write = snd (write example_platform ''c/a'' (JNum 12345) ''c'' 100 1000 empty_fs)"


definition truncated_fs :: fs where
  "truncated_fs =
     \<lparr>files = fmupd ''c/a.json'' (Doc (ExternalBuffer 0 4)) (fmupd ''c/a-0.bin'' (Bin [1, 2]) fmempty),
      io_log = []\<rparr>"

definition shaped_value :: "bytes jsval" where
  "shaped_value = JObj [(''type'', JStr ''Buffer''), (''data'', JArr [JNum 1, JNum 2])]"

definition mixed_value :: "bytes jsval" where
  "mixed_value = JArr [JBuf (replicate 1024 7), JBuf [1, 2, 3], JObj [(''k'', JStr ''x'')]]"

definition large_shaped_value :: "bytes jsval" where
  "large_shaped_value = JObj [(''type'', JStr ''Buffer''), (''data'', JArr (replicate 1024 (JNum 300)))]"

definition mixed_document :: "bytes jsval" where
  "mixed_document =
     JArr [ExternalBuffer 0 1024, toJSON (JBuf [1, 2, 3]), JObj [(''k'', JStr ''x'')]]"

definition nested_shaped_value :: "bytes jsval" where
  "nested_shaped_value = JArr [JObj [(''type'', JStr ''Buffer''), (''data'', JArr [JNum 1, JNum 2])], JNum 5]"

section \<open>Properties of the encoder state\<close>

lemma traverse_preserves:
  assumes "traverse f xs s = Inr (ys, s')" and "P s"
    and "\<And>x u y u'. x \<in> set xs \<Longrightarrow> P u \<Longrightarrow> f x u = Inr (y, u') \<Longrightarrow> P u'"
  shows "P s'"
  using assms
proof (induction xs arbitrary: s ys)
  case Nil
  then show ?case by simp
next
  case (Cons x xs)
  from Cons.prems(1) obtain y s1 ys1 where
    fx: "f x s = Inr (y, s1)" and rest: "traverse f xs s1 = Inr (ys1, s')"
    by (auto split: sum.splits)
  from Cons.prems(3) [OF _ Cons.prems(2) fx] have "P s1" by simp
  with Cons.IH [OF rest] Cons.prems(3) show ?case by auto
qed

lemma on_snd_Inr:
  "on_snd f kv u = Inr (y, u') \<Longrightarrow> \<exists>z. f (snd kv) u = Inr (z, u') \<and> y = (fst kv, z)"
  by (auto simp: on_snd_def split: sum.splits)

lemma replacerFunction_ext_ok:
  "replacerFunction pf v s = Inr (v2, s2) \<Longrightarrow> ext_ok s \<Longrightarrow> ext_ok s2"
  by (auto simp: replacerFunction_def ext_ok_def split: prod.splits option.splits if_splits sum.splits)

lemma JSON_stringify_ext_ok:
  "JSON_stringify pf v s = Inr (d, s') \<Longrightarrow> ext_ok s \<Longrightarrow> ext_ok s'"
proof (induction pf v s arbitrary: d s' rule: JSON_stringify.induct)
  case (1 pf v s)
  from "1.prems"(1) obtain v2 s2 where
    r: "replacerFunction pf (toJSON v) s = Inr (v2, s2)"
    by (subst (asm) JSON_stringify.simps) (auto split: sum.splits)
  then have ok2: "ext_ok s2" using "1.prems"(2) by (rule replacerFunction_ext_ok)
  show ?case
  proof (cases v2)
    case (JArr xs)
    with r "1.prems"(1) obtain ys where t: "traverse (JSON_stringify pf) xs s2 = Inr (ys, s')"
      by (subst (asm) JSON_stringify.simps) (auto split: sum.splits)
    show ?thesis
      by (rule traverse_preserves [where P = ext_ok, OF t ok2]) (rule "1.IH"(1) [OF r refl JArr])
  next
    case (JObj kvs)
    with r "1.prems"(1) obtain ys where t: "traverse (on_snd (JSON_stringify pf)) kvs s2 = Inr (ys, s')"
      by (subst (asm) JSON_stringify.simps) (auto split: sum.splits)
    show ?thesis
    proof (rule traverse_preserves [where P = ext_ok, OF t ok2])
      fix kv u y u'
      assume kv: "kv \<in> set kvs" and u: "ext_ok u"
        and "on_snd (JSON_stringify pf) kv u = Inr (y, u')"
      then obtain z where "JSON_stringify pf (snd kv) u = Inr (z, u')"
        by (auto dest!: on_snd_Inr)
      from "1.IH"(2) [OF r refl JObj kv this u] show "ext_ok u'" .
    qed
  qed (use r ok2 "1.prems"(1) in \<open>subst (asm) JSON_stringify.simps, auto\<close>)+
qed

section \<open>Claims about write, delete and eviction\<close>

lemma int_sum_list_map: "int (sum_list (map f xs)) = (\<Sum>x\<leftarrow>xs. int (f x))"
  by (induction xs) auto

lemma ext_ok_sum:
  "ext_ok (segments, n) \<Longrightarrow> int n = (\<Sum>b\<leftarrow>segments. int (length (snd b)))"
  by (simp add: ext_ok_def int_sum_list_map)

text \<open>
  When the encoded size of a value, the length of its primary document plus the
  lengths of its segments, exceeds \<open>maxsize\<close>, \<^verbatim>\<open>write\<close> fails and the file
  system is as before, its log of calls included: no file was read, written or
  removed. The failure is the error of line 81, except for the value
  \<^verbatim>\<open>null\<close>, where building the message of that error fails first.
\<close>

lemma write_rejects_oversize:
  assumes "JSON_stringify pf data ([], 0) = Inr (primaryDocument, segments, n)"
    and "maxsize < int (length (json_text primaryDocument)) + (\<Sum>b\<leftarrow>segments. int (length (snd b)))"
  shows "write pf path data cachePath maxsize now st =
           (Inl (if data = JNull then TypeError
                 else NotSettingCacheValue
                        (int (length (json_text primaryDocument)) + (\<Sum>b\<leftarrow>segments. int (length (snd b))))
                        maxsize), st)"
proof -
  have "ext_ok (segments, n)"
    using JSON_stringify_ext_ok [OF assms(1)] by (simp add: ext_ok_def)
  then have "int n = (\<Sum>b\<leftarrow>segments. int (length (snd b)))" by (rule ext_ok_sum)
  with assms show ?thesis by (simp add: write_def Let_def)
qed

lemma stringify_num: "JSON_stringify pf (JNum k) s = Inr (JNum k, s)"
  by (simp add: JSON_stringify.simps replacerFunction_def split: prod.splits)

lemma stringify_null: "JSON_stringify pf JNull s = Inr (JNull, s)"
  by (simp add: JSON_stringify.simps replacerFunction_def split: prod.splits)

lemma write_rejects_oversize_example:
  "write example_platform ''c/a'' (JNum 12345) ''c'' 3 1000 empty_fs
     = (Inl (NotSettingCacheValue 5 3), empty_fs)"
proof -
  have a: "JSON_stringify example_platform (JNum 12345) ([], 0) = Inr (JNum 12345, [], 0)"
    by (rule stringify_num)
  have l: "length (show_int 12345) = 5"
    by (simp add: show_int_def show_nat.simps)
  have b: "3 < int (length (json_text (JNum 12345))) + (\<Sum>b\<leftarrow>([] :: (nat \<times> bytes) list). int (length (snd b)))"
    by (simp add: l)
  from write_rejects_oversize [OF a b, of "''c/a''" "''c''" 1000 empty_fs] l show ?thesis
    by simp
qed

text \<open>
  Claim C5, at a failing input. The value \<^verbatim>\<open>null\<close> is encoded as the four
  characters of \<^verbatim>\<open>null\<close> with no segment. With a \<open>maxsize\<close> of 3 the write
  fails before any call to the file system, as the claim says, but with the
  \<open>TypeError\<close> of reading \<^verbatim>\<open>data.key\<close> and not with the error of line 81.
\<close>

theorem oversize_null_type_error:
  "JSON_stringify example_platform JNull ([], 0) = Inr (JNull, [], 0)
   \<and> length (json_text JNull) = 4
   \<and> write example_platform ''c/a'' JNull ''c'' 3 1000 empty_fs = (Inl TypeError, empty_fs)"
  by (simp add: write_def stringify_null Let_def)

text \<open>
  Claim C8. Deleting a path that has no primary document file fails with
  \<open>ENOENT\<close>, whether a cache root is given or not; the only call made is the
  failed \<^verbatim>\<open>unlink\<close>, so every file, the index file included, is as before.
\<close>

theorem delete_missing_document:
  assumes "fmlookup (files st) (path @ ''.json'') = None"
  shows "delete path cachePath st = (Inl ENOENT, st\<lparr>io_log := io_log st @ [Unlink (path @ ''.json'')]\<rparr>)
         \<and> files (snd (delete path cachePath st)) = files st"
  using assms by (simp add: delete_def unlink_def)

theorem delete_missing_document_witness:
  "fmlookup (files example_fs) (''c/b'' @ ''.json'') = None
   \<and> delete ''c/b'' (Some ''c'') example_fs
       = (Inl ENOENT, example_fs\<lparr>io_log := io_log example_fs @ [Unlink (''c/b'' @ ''.json'')]\<rparr>)
   \<and> files (snd (delete ''c/b'' (Some ''c'') example_fs)) = files example_fs"
proof -
  have a: "fmlookup (files example_fs) (''c/b'' @ ''.json'') = None"
    by (simp add: example_fs_def)
  from delete_missing_document [OF a, of "Some ''c''"] a show ?thesis by simp
qed

lemma reduce_loop_underflow:
  "(\<forall>k \<le> length es. sd + sum_list (map size_e (take k es)) < btr) \<Longrightarrow>
   reduce_loop es del sd btr md = Inl TypeError"
proof (induction es arbitrary: del sd md)
  case Nil
  then show ?case by (simp add: reduce_loop.simps)
next
  case (Cons e es)
  from Cons.prems have lt: "sd < btr" by (auto dest: spec [of _ 0])
  have "\<forall>k \<le> length es. (sd + size_e e) + sum_list (map size_e (take k es)) < btr"
  proof (intro allI impI)
    fix k assume "k \<le> length es"
    with Cons.prems have "sd + sum_list (map size_e (take (Suc k) (e # es))) < btr"
      by (auto dest!: spec [of _ "Suc k"])
    then show "(sd + size_e e) + sum_list (map size_e (take k es)) < btr" by simp
  qed
  from Cons.IH [OF this] lt show ?case
    by (subst reduce_loop.simps) simp
qed

lemma sum_list_insort_key:
  "sum_list (map f (insort_key k x xs)) = f x + sum_list (map (f :: 'a \<Rightarrow> int) xs)"
  by (induction xs) auto

lemma sum_list_sort_key:
  "sum_list (map f (sort_key k xs)) = sum_list (map (f :: 'a \<Rightarrow> int) xs)"
  by (induction xs) (auto simp: sum_list_insort_key)

lemma sum_list_take_le:
  "(\<forall>x \<in> set xs. 0 \<le> f x) \<Longrightarrow> sum_list (map f (take k xs)) \<le> sum_list (map (f :: 'a \<Rightarrow> int) xs)"
proof (induction xs arbitrary: k)
  case Nil
  then show ?case by simp
next
  case (Cons x xs)
  have "0 \<le> sum_list (map f (x # xs))"
    using Cons.prems by (intro sum_list_nonneg) auto
  with Cons show ?case
    by (cases k) auto
qed

text \<open>
  Claim C9. When the sizes of all the entries of the index together stay below
  \<open>bytesToReduce\<close>, the loop of \<^verbatim>\<open>reduceCacheSize\<close> shifts from the empty list
  and the function fails with a \<open>TypeError\<close>; nothing is deleted and no index is
  returned.
\<close>

theorem eviction_underflow_faults:
  assumes "\<forall>e \<in> set (Object_values (entries metadata)). 0 \<le> size_e e"
    and "sum_list (map size_e (Object_values (entries metadata))) < bytesToReduce"
  shows "reduceCacheSize metadata bytesToReduce st = (Inl TypeError, st)"
proof -
  let ?es = "sort_key created (Object_values (entries metadata))"
  have nonneg: "\<forall>e \<in> set ?es. 0 \<le> size_e e" using assms(1) by simp
  have "\<forall>k \<le> length ?es. 0 + sum_list (map size_e (take k ?es)) < bytesToReduce"
  proof (intro allI impI)
    fix k
    have "sum_list (map size_e (take k ?es)) \<le> sum_list (map size_e ?es)"
      using nonneg by (rule sum_list_take_le)
    also have "\<dots> = sum_list (map size_e (Object_values (entries metadata)))"
      by (rule sum_list_sort_key)
    finally show "0 + sum_list (map size_e (take k ?es)) < bytesToReduce"
      using assms(2) by simp
  qed
  then have "reduce_loop ?es [] 0 bytesToReduce metadata = Inl TypeError"
    by (rule reduce_loop_underflow)
  then show ?thesis by (simp add: reduceCacheSize_def)
qed

theorem eviction_underflow_faults_witness:
  "sum_list (map size_e (Object_values (entries example_index))) < 17
   \<and> reduceCacheSize example_index 17 example_fs = (Inl TypeError, example_fs)"
proof -
  have a: "\<forall>e \<in> set (Object_values (entries example_index)). 0 \<le> size_e e"
    by (simp add: example_index_def Object_values_def)
  have b: "sum_list (map size_e (Object_values (entries example_index))) < 17"
    by (simp add: example_index_def Object_values_def)
  from eviction_underflow_faults [OF a b, of example_fs] a b show ?thesis by simp
qed

section \<open>The accounting of the index\<close>

lemma length_show_12345: "length (show_int 12345) = 5"
  by (simp add: show_int_def show_nat.simps)

lemma first_write:
  "write example_platform ''c/a'' (JNum 12345) ''c'' 100 1000 empty_fs =
     (Inr (),
      \<lparr>files = fmupd ''c/meta.json''
           (Meta \<lparr>size_m = 5, entries = [(''c/a'', \<lparr>path_e = ''c/a'', size_e = 5, created = 1000\<rparr>)]\<rparr>)
           (fmupd ''c/a.json'' (Doc (JNum 12345)) fmempty),
       io_log = [ReadFile ''c/meta.json'', WriteFile ''c/a.json'', WriteFile ''c/meta.json'']\<rparr>)"
  by (simp add: write_def stringify_num length_show_12345 readMetaFile_def readFile_def
      metaFilePath_def empty_fs_def writeFile_def writeMetaFile_def obj_set_def array_index_def Let_def)

text \<open>
  Claim C1, at a failing input. From the empty cache, \<^verbatim>\<open>write('c/a', 12345)\<close>
  leaves an index that satisfies the invariant. A second write to the same path adds
  the size again and keeps one entry: the recorded size is 10, the entries sum to 5.
  Deleting the path with the cache root given subtracts the size and keeps the
  entry: the recorded size is 0, the entries sum to 5.
\<close>

theorem size_invariant_violated:
  "persisted_index ''c'' after_first_write
     = Some \<lparr>size_m = 5, entries = [(''c/a'', \<lparr>path_e = ''c/a'', size_e = 5, created = 1000\<rparr>)]\<rparr>
   \<and> index_invariant \<lparr>size_m = 5, entries = [(''c/a'', \<lparr>path_e = ''c/a'', size_e = 5, created = 1000\<rparr>)]\<rparr>
   \<and> fst (write example_platform ''c/a'' (JNum 12345) ''c'' 100 2000 after_first_write) = Inr ()
   \<and> persisted_index ''c'' (snd (write example_platform ''c/a'' (JNum 12345) ''c'' 100 2000 after_first_write))
     = Some \<lparr>size_m = 10, entries = [(''c/a'', \<lparr>path_e = ''c/a'', size_e = 5, created = 2000\<rparr>)]\<rparr>
   \<and> \<not> index_invariant \<lparr>size_m = 10, entries = [(''c/a'', \<lparr>path_e = ''c/a'', size_e = 5, created = 2000\<rparr>)]\<rparr>
   \<and> fst (delete ''c/a'' (Some ''c'') after_first_write) = Inr ()
   \<and> persisted_index ''c'' (snd (delete ''c/a'' (Some ''c'') after_first_write))
     = Some \<lparr>size_m = 0, entries = [(''c/a'', \<lparr>path_e = ''c/a'', size_e = 5, created = 1000\<rparr>)]\<rparr>
   \<and> \<not> index_invariant \<lparr>size_m = 0, entries = [(''c/a'', \<lparr>path_e = ''c/a'', size_e = 5, created = 1000\<rparr>)]\<rparr>"
  unfolding after_first_write_def first_write
  by (simp add: write_def stringify_num length_show_12345 delete_def unlink_def unlink_bins.simps
      show_nat.simps readMetaFile_def readFile_def metaFilePath_def writeFile_def writeMetaFile_def
      obj_set_def persisted_index_def index_invariant_def Object_values_def Let_def)

text \<open>
  Claim C2, at a failing input. After \<^verbatim>\<open>write('c/a', 12345)\<close> the path has a live
  entry of size 5. \<^verbatim>\<open>delete('c/a', {path: 'c'})\<close> succeeds and removes the
  primary document; the index it persists has size 0 and still holds the entry.
\<close>

theorem delete_keeps_entry:
  "fst (delete ''c/a'' (Some ''c'') after_first_write) = Inr ()
   \<and> fmlookup (files (snd (delete ''c/a'' (Some ''c'') after_first_write))) ''c/a.json'' = None
   \<and> map_option size_m (persisted_index ''c'' (snd (delete ''c/a'' (Some ''c'') after_first_write)))
       = Some 0
   \<and> map_option (\<lambda>m. map_of (entries m) ''c/a'')
        (persisted_index ''c'' (snd (delete ''c/a'' (Some ''c'') after_first_write)))
       = Some (Some \<lparr>path_e = ''c/a'', size_e = 5, created = 1000\<rparr>)"
  unfolding after_first_write_def first_write
  by (simp add: delete_def unlink_def unlink_bins.simps show_nat.simps readMetaFile_def
      readFile_def metaFilePath_def writeFile_def writeMetaFile_def persisted_index_def Let_def)

section \<open>Reading segments\<close>

lemma read_segment_files [simp]: "files (snd (read_segment path eb st)) = files st"
  by (simp add: read_segment_def Let_def split: option.splits)

lemma read_segment_fst:
  "fst (read_segment path eb st) =
     (if fmlookup (files st) (segment_path path (show_int (fst eb))) = None then Inl ENOENT
      else Inr (buffer_after_read (files st) path eb))"
  by (simp add: read_segment_def buffer_after_read_def Let_def split: option.splits)

lemma Promise_all_read_segment:
  "files (snd (Promise_all (map (read_segment path) ebs) st)) = files st
   \<and> fst (Promise_all (map (read_segment path) ebs) st) =
       (if \<exists>eb \<in> set ebs. fmlookup (files st) (segment_path path (show_int (fst eb))) = None
        then Inl ENOENT
        else Inr (map (buffer_after_read (files st) path) ebs))"
proof (induction ebs arbitrary: st)
  case Nil
  then show ?case by simp
next
  case (Cons eb ebs)
  obtain r st1 where r: "read_segment path eb st = (r, st1)" by (cases "read_segment path eb st")
  then have f1: "files st1 = files st" and r1: "r = fst (read_segment path eb st)"
    using read_segment_files [of path eb st] by auto
  obtain rs st2 where rs: "Promise_all (map (read_segment path) ebs) st1 = (rs, st2)"
    by (cases "Promise_all (map (read_segment path) ebs) st1")
  with Cons.IH [of st1] f1 have
    f2: "files st2 = files st"
    and r2: "rs = (if \<exists>eb \<in> set ebs. fmlookup (files st) (segment_path path (show_int (fst eb))) = None
                   then Inl ENOENT else Inr (map (buffer_after_read (files st) path) ebs))"
    by auto
  show ?case
    using r rs f2 r1 r2 by (auto simp: read_segment_fst)
qed

lemma read_result:
  assumes "fmlookup (files st) (path @ ''.json'') = Some (Doc dataString)"
    and "JSON_parse pf dataString = Inr (data, externalBuffers)"
  shows "fst (read pf path st) =
           (if \<exists>eb \<in> set externalBuffers.
                 fmlookup (files st) (segment_path path (show_int (fst eb))) = None
            then Inl ENOENT
            else Inr (map_jsval (fill (map (buffer_after_read (files st) path) externalBuffers)) data))"
proof -
  let ?st1 = "st\<lparr>io_log := io_log st @ [ReadFile (path @ ''.json'')]\<rparr>"
  have f: "files ?st1 = files st" by simp
  obtain rs st2 where rs: "Promise_all (map (read_segment path) externalBuffers) ?st1 = (rs, st2)"
    by (cases "Promise_all (map (read_segment path) externalBuffers) ?st1")
  with Promise_all_read_segment [of path externalBuffers ?st1] f
  have "rs = (if \<exists>eb \<in> set externalBuffers.
                   fmlookup (files st) (segment_path path (show_int (fst eb))) = None
              then Inl ENOENT
              else Inr (map (buffer_after_read (files st) path) externalBuffers))"
    by auto
  with assms rs show ?thesis
    by (auto simp: read_def readFile_def)
qed

text \<open>
  Claim C7, as amended. For a primary document that parses, \<^verbatim>\<open>read\<close> fails with
  \<open>ENOENT\<close> exactly when the segment file of one of its placeholders is missing.
  When every segment file exists it succeeds, whatever the lengths of the files:
  each placeholder's buffer holds the first \<open>size\<close> bytes of its file, followed
  by zeros when the file is shorter.
\<close>

theorem read_segments_unchecked:
  assumes "fmlookup (files st) (path @ ''.json'') = Some (Doc dataString)"
    and "JSON_parse pf dataString = Inr (data, externalBuffers)"
  shows "fst (read pf path st) =
           (if \<exists>eb \<in> set externalBuffers.
                 fmlookup (files st) (segment_path path (show_int (fst eb))) = None
            then Inl ENOENT
            else Inr (map_jsval (fill (map (buffer_after_read (files st) path) externalBuffers)) data))"
  using assms by (rule read_result)

lemma parse_placeholder:
  "0 \<le> n \<Longrightarrow> JSON_parse pf (ExternalBuffer i n) = Inr (JBuf (replicate (nat n) 0, Some 0), [(i, nat n)])"
  by (simp add: JSON_parse_def ExternalBuffer_def bufferReceiver_def on_snd_def)

text \<open>
  The claim as stated fails: for a placeholder of size 4 whose segment file holds
  the two bytes 1 and 2, \<^verbatim>\<open>read\<close> returns the zero-padded buffer.
\<close>

theorem read_segments_unchecked_counterexample:
  "fmlookup (files truncated_fs) ''c/a-0.bin'' = Some (Bin [1, 2])
   \<and> fmlookup (files truncated_fs) ''c/a.json'' = Some (Doc (ExternalBuffer 0 4))
   \<and> fst (read example_platform ''c/a'' truncated_fs) = Inr (JBuf [1, 2, 0, 0])"
proof -
  have a: "fmlookup (files truncated_fs) (''c/a'' @ ''.json'') = Some (Doc (ExternalBuffer 0 4))"
    by (simp add: truncated_fs_def)
  have b: "JSON_parse example_platform (ExternalBuffer 0 4) = Inr (JBuf (replicate (nat 4) 0, Some 0), [(0, nat 4)])"
    by (rule parse_placeholder) simp
  have c: "fmlookup (files truncated_fs) (segment_path ''c/a'' (show_int 0)) = Some (Bin [1, 2])"
    by (simp add: truncated_fs_def segment_path_def show_int_def show_nat.simps)
  have "fst (read example_platform ''c/a'' truncated_fs) = Inr (JBuf [1, 2, 0, 0])"
    using a b c
    by (simp add: read_def readFile_def read_segment_def fill_def Let_def numeral_eq_Suc)
  then show ?thesis by (simp add: truncated_fs_def)
qed

theorem read_segments_unchecked_witness:
  "fmlookup (files truncated_fs) (''c/a'' @ ''.json'') = Some (Doc (ExternalBuffer 0 4))
   \<and> JSON_parse example_platform (ExternalBuffer 0 4) = Inr (JBuf (replicate 4 0, Some 0), [(0, 4)])
   \<and> fst (read example_platform ''c/a'' truncated_fs) = Inr (JBuf [1, 2, 0, 0])
   \<and> fst (read example_platform ''c/a'' (truncated_fs\<lparr>files := fmdrop ''c/a-0.bin'' (files truncated_fs)\<rparr>))
       = Inl ENOENT"
proof -
  let ?st = "truncated_fs\<lparr>files := fmdrop ''c/a-0.bin'' (files truncated_fs)\<rparr>"
  have a: "fmlookup (files truncated_fs) (''c/a'' @ ''.json'') = Some (Doc (ExternalBuffer 0 4))"
    by (simp add: truncated_fs_def)
  have a': "fmlookup (files ?st) (''c/a'' @ ''.json'') = Some (Doc (ExternalBuffer 0 4))"
    by (simp add: truncated_fs_def)
  have b: "JSON_parse example_platform (ExternalBuffer 0 4) = Inr (JBuf (replicate 4 0, Some 0), [(0, 4)])"
    using parse_placeholder [of 4 example_platform 0] by simp
  have s: "segment_path ''c/a'' (show_int 0) = ''c/a-0.bin''"
    by (simp add: segment_path_def show_int_def show_nat.simps)
  from read_segments_unchecked [OF a b] have
    "fst (read example_platform ''c/a'' truncated_fs) = Inr (JBuf [1, 2, 0, 0])"
    by (simp add: s truncated_fs_def buffer_after_read_def fill_def numeral_eq_Suc)
  moreover from read_segments_unchecked [OF a' b] have
    "fst (read example_platform ''c/a'' ?st) = Inl ENOENT"
    by (simp add: s truncated_fs_def)
  ultimately show ?thesis using a b by simp
qed

section \<open>Eviction\<close>

lemma sizes_simps [simp]: "sizes [] = 0" "sizes (e # es) = size_e e + sizes es"
  by (simp_all add: sizes_def)






lemma json_ne_bin: "p @ ''.json'' \<noteq> segment_path q i"
proof
  assume "p @ ''.json'' = segment_path q i"
  then have "rev (p @ ''.json'') = rev (q @ ''-'' @ i @ ''.bin'')"
    by (simp add: segment_path_def)
  then show False by simp
qed





lemma fold_writeFile_other:
  "(\<forall>eb \<in> set ebs. f \<noteq> name eb) \<Longrightarrow>
   fmlookup (files (fold (\<lambda>eb. writeFile (name eb) (content eb)) ebs st)) f = fmlookup (files st) f"
  by (induction ebs arbitrary: st) (auto simp: writeFile_def)









section \<open>Encoding and decoding\<close>

subsection \<open>Numbered segments and filled buffers\<close>

lemma numbered_Nil [simp]: "numbered off [] = []"
  by (simp add: numbered_def)

lemma numbered_single [simp]: "numbered off [b] = [(off, b)]"
  by (simp add: numbered_def)

lemma numbered_append: "numbered off (a @ b) = numbered off a @ numbered (off + length a) b"
proof -
  have "[off..<off + (length a + length b)] = [off..<off + length a] @ [off + length a..<off + length a + length b]"
    by (metis add.assoc upt_add_eq_append le_add1)
  then show ?thesis by (simp add: numbered_def add.assoc)
qed

lemma length_numbered [simp]: "length (numbered off bss) = length bss"
  by (simp add: numbered_def)

lemma map_snd_numbered [simp]: "map snd (numbered off bss) = bss"
  by (simp add: numbered_def)

lemma map_fst_numbered [simp]: "map fst (numbered off bss) = [off..<off + length bss]"
  by (simp add: numbered_def)

lemma pending_Nil [simp]: "pending off [] = []"
  by (simp add: pending_def)

lemma pending_single [simp]: "pending off [b] = [(int off, length b)]"
  by (simp add: pending_def)

lemma pending_append: "pending off (a @ b) = pending off a @ pending (off + length a) b"
  by (simp add: pending_def numbered_append)

lemma agree_Nil [simp]: "agree filled off []"
  by (simp add: agree_def)

lemma agree_append:
  assumes "agree filled off (a @ b)"
  shows "agree filled off a" and "agree filled (off + length a) b"
proof -
  from assms have t: "take (length a + length b) (drop off filled) = a @ b"
    by (simp add: agree_def)
  have "take (length a) (take (length a + length b) (drop off filled)) = take (length a) (drop off filled)"
    by simp
  with t show "agree filled off a" by (simp add: agree_def)
  have "drop (length a) (take (length a + length b) (drop off filled))
          = take (length b) (drop (off + length a) filled)"
    by (simp add: drop_take add.commute)
  with t show "agree filled (off + length a) b" by (simp add: agree_def)
qed

lemma agree_single:
  assumes "agree filled off [b]"
  shows "off < length filled" and "filled ! off = b"
proof -
  from assms have t: "take 1 (drop off filled) = [b]" by (simp add: agree_def)
  then have ne: "drop off filled \<noteq> []" by auto
  then show "off < length filled" by simp
  from t ne have "hd (drop off filled) = b" by (cases "drop off filled") auto
  with ne show "filled ! off = b" by (simp add: hd_drop_conv_nth)
qed

lemma agree_exists: "\<exists>filled. agree filled off bss"
  by (rule exI [of _ "replicate off [] @ bss"]) (simp add: agree_def)

subsection \<open>Traversals\<close>

lemma traverse_length: "traverse f xs s = Inr (ys, s') \<Longrightarrow> length ys = length xs"
  by (induction xs arbitrary: s ys) (auto split: sum.splits)

lemma traverse_on_snd:
  "traverse (on_snd f) kvs s =
     (case traverse f (map snd kvs) s of
        Inl e \<Rightarrow> Inl e
      | Inr (ys, s') \<Rightarrow> Inr (zip (map fst kvs) ys, s'))"
  by (induction kvs arbitrary: s) (auto simp: on_snd_def split: sum.splits)

lemma traverse_fixed:
  "(\<And>x u. x \<in> set xs \<Longrightarrow> f x u = Inr (x, u)) \<Longrightarrow> traverse f xs s = Inr (xs, s)"
  by (induction xs arbitrary: s) auto

subsection \<open>What the tests of the replacer and of the reviver depend on\<close>

lemma truthy_map [simp]: "truthy (map_jsval g t) = truthy t"
  by (cases t) auto

lemma is_JNum_map [simp]: "is_JNum (map_jsval g t) = is_JNum t"
  by (cases t) auto

lemma the_JNum_map [simp]: "the_JNum (map_jsval g t) = the_JNum t"
  by (cases t) auto

lemma map_eq_JStr [simp]: "map_jsval g t = JStr s \<longleftrightarrow> t = JStr s"
  by (cases t) auto

lemma truthy_read_back [simp]: "truthy (read_back c) = truthy c"
  by (cases c) (auto split: option.splits)

lemma is_JNum_read_back [simp]: "is_JNum (read_back c) = is_JNum c"
  by (cases c) (auto split: option.splits)

lemma read_back_eq_JStr [simp]: "read_back c = JStr s \<longleftrightarrow> c = JStr s"
  by (cases c) (auto split: option.splits)

lemma is_JNum_iff: "is_JNum v \<longleftrightarrow> (\<exists>n. v = JNum n)"
  by (cases v) auto

lemma read_back_numbers: "list_all is_JNum xs \<Longrightarrow> map read_back xs = xs"
  by (induction xs) (auto simp: is_JNum_iff)

lemma Buffer_from_numbers:
  assumes "map_jsval g t = JArr xs" and "list_all is_JNum xs"
  shows "Buffer_from pf (map_jsval fst t) = Inr (map (\<lambda>x. word_of_int (the_JNum x)) xs)"
proof -
  from assms(1) obtain ts where t: "t = JArr ts" and xs: "xs = map (map_jsval g) ts"
    by (cases t) auto
  from assms(2) xs have "list_all is_JNum (map (map_jsval fst) ts)"
    by (simp add: list_all_iff)
  then show ?thesis
    by (simp add: Buffer_from_def t xs comp_def)
qed

lemma map_of_zip_rel:
  assumes "length cs = length ks" and "length ts = length ks"
    and "\<And>j. j < length ks \<Longrightarrow> Q (cs ! j) (ts ! j)"
  shows "rel_option Q (map_of (zip ks cs) k) (map_of (zip ks ts) k)"
  using assms
proof (induction ks arbitrary: cs ts)
  case Nil
  then show ?case by simp
next
  case (Cons k' ks)
  then obtain c cs' t ts' where cs: "cs = c # cs'" and ts: "ts = t # ts'"
    by (cases cs; cases ts) auto
  from Cons.prems(3) [of 0] have "Q c t" by (simp add: cs ts)
  moreover have "rel_option Q (map_of (zip ks cs') k) (map_of (zip ks ts') k)"
  proof (rule Cons.IH)
    show "length cs' = length ks" "length ts' = length ks" using Cons.prems(1,2) cs ts by auto
    fix j assume "j < length ks"
    with Cons.prems(3) [of "Suc j"] show "Q (cs' ! j) (ts' ! j)" by (simp add: cs ts)
  qed
  ultimately show ?case by (simp add: cs ts)
qed

lemma decodes_list_Nil: "decodes_list pf off [] []"
  by (simp add: decodes_list_def)

lemma decodes_list_Cons:
  assumes d: "decodes pf off d x"
    and ds: "decodes_list pf (off + length (large_buffers x)) ds xs"
  shows "decodes_list pf off (d # ds) (x # xs)"
  unfolding decodes_list_def
proof (intro allI)
  fix pend
  let ?a = "large_buffers x" and ?b = "concat (map large_buffers xs)"
  from d obtain t where
    t: "revive pf (emb d) pend = Inr (t, pend @ pending off ?a)"
    and tf: "\<And>filled. agree filled (length pend) ?a \<Longrightarrow> map_jsval (fill filled) t = read_back x"
    unfolding decodes_def by blast
  from ds obtain ts where
    ts: "traverse (revive pf) (map emb ds) (pend @ pending off ?a)
           = Inr (ts, (pend @ pending off ?a) @ pending (off + length ?a) ?b)"
    and tsf: "\<And>filled. agree filled (length (pend @ pending off ?a)) ?b \<Longrightarrow>
                map (map_jsval (fill filled)) ts = map read_back xs"
    unfolding decodes_list_def by blast
  have l: "length (pend @ pending off ?a) = length pend + length ?a"
    by (simp add: pending_def)
  show "\<exists>ts. traverse (revive pf) (map emb (d # ds)) pend
                = Inr (ts, pend @ pending off (concat (map large_buffers (x # xs))))
          \<and> (\<forall>filled. agree filled (length pend) (concat (map large_buffers (x # xs))) \<longrightarrow>
                map (map_jsval (fill filled)) ts = map read_back (x # xs))"
  proof (intro exI [of _ "t # ts"] conjI allI impI)
    show "traverse (revive pf) (map emb (d # ds)) pend
            = Inr (t # ts, pend @ pending off (concat (map large_buffers (x # xs))))"
      using t ts by (simp add: pending_append)
  next
    fix filled assume "agree filled (length pend) (concat (map large_buffers (x # xs)))"
    then have "agree filled (length pend) (?a @ ?b)" by simp
    then have "agree filled (length pend) ?a" and "agree filled (length pend + length ?a) ?b"
      by (rule agree_append)+
    with tf tsf l show "map (map_jsval (fill filled)) (t # ts) = map read_back (x # xs)"
      by simp
  qed
qed

lemma roundtrips_list:
  "(\<And>x. x \<in> set xs \<Longrightarrow> roundtrips pf x) \<Longrightarrow> roundtrips_list pf xs"
proof (induction xs)
  case Nil
  then show ?case by (simp add: roundtrips_list_def decodes_list_Nil)
next
  case (Cons x xs)
  have rx: "roundtrips pf x" using Cons.prems by simp
  have rxs: "roundtrips_list pf xs" using Cons by simp
  show ?case
    unfolding roundtrips_list_def
  proof (intro allI)
    fix ebs n
    let ?a = "large_buffers x" and ?b = "concat (map large_buffers xs)"
    from rx obtain d where
      d: "JSON_stringify pf x (ebs, n) = Inr (d, ebs @ numbered (length ebs) ?a, n + sum_list (map length ?a))"
      and dd: "decodes pf (length ebs) d x"
      unfolding roundtrips_def by blast
    from rxs obtain ds where
      ds: "traverse (JSON_stringify pf) xs (ebs @ numbered (length ebs) ?a, n + sum_list (map length ?a))
             = Inr (ds, (ebs @ numbered (length ebs) ?a) @ numbered (length (ebs @ numbered (length ebs) ?a)) ?b,
                    (n + sum_list (map length ?a)) + sum_list (map length ?b))"
      and dds: "decodes_list pf (length (ebs @ numbered (length ebs) ?a)) ds xs"
      unfolding roundtrips_list_def by blast
    have "traverse (JSON_stringify pf) (x # xs) (ebs, n)
            = Inr (d # ds, ebs @ numbered (length ebs) (concat (map large_buffers (x # xs))),
                   n + sum_list (map length (concat (map large_buffers (x # xs)))))"
      using d ds by (simp add: numbered_append)
    moreover have "decodes_list pf (length ebs) (d # ds) (x # xs)"
      using dd dds by (intro decodes_list_Cons) simp_all
    ultimately show "\<exists>ds. traverse (JSON_stringify pf) (x # xs) (ebs, n)
            = Inr (ds, ebs @ numbered (length ebs) (concat (map large_buffers (x # xs))),
                   n + sum_list (map length (concat (map large_buffers (x # xs)))))
          \<and> decodes_list pf (length ebs) ds (x # xs)"
      by blast
  qed
qed

subsection \<open>The replacer and the reviver at one node\<close>

lemma get_prop_truthy: "get_prop k v = Some d \<Longrightarrow> truthy v"
  by (cases v) auto

lemma replacer_plain:
  "\<not> (buffer_shaped v \<and> (\<exists>d. get_prop ''data'' v = Some d \<and> data_length_ge_1024 pf d)) \<Longrightarrow>
   replacerFunction pf v s = Inr (v, s)"
  by (auto simp: replacerFunction_def buffer_shaped_def split: prod.splits option.splits)

lemma replacer_extract:
  assumes "buffer_shaped v" and "get_prop ''data'' v = Some d" and "data_length_ge_1024 pf d"
    and "Buffer_from pf d = Inr b"
  shows "replacerFunction pf v (ebs, n) =
           Inr (ExternalBuffer (int (length ebs)) (int (length b)), ebs @ [(length ebs, b)], n + length b)"
  using assms get_prop_truthy [OF assms(2)]
  by (simp add: replacerFunction_def buffer_shaped_def)

lemma bufferReceiver_plain:
  "\<not> buffer_shaped v \<Longrightarrow> \<not> placeholder_shaped v \<Longrightarrow> bufferReceiver pf v ebs = Inr (v, ebs)"
  by (auto simp: bufferReceiver_def buffer_shaped_def placeholder_shaped_def is_JNum_iff
      split: option.splits jsval.splits)

lemma bufferReceiver_buffer:
  assumes "buffer_shaped v" and "get_prop ''data'' v = Some d" and "Buffer_from pf (map_jsval fst d) = Inr bs"
  shows "bufferReceiver pf v ebs = Inr (JBuf (bs, None), ebs)"
  using assms get_prop_truthy [OF assms(2)]
  by (simp add: bufferReceiver_def buffer_shaped_def)

lemma bufferReceiver_placeholder:
  "bufferReceiver pf (ExternalBuffer i (int n)) ebs
     = Inr (JBuf (replicate n 0, Some (length ebs)), ebs @ [(i, n)])"
  by (simp add: bufferReceiver_def ExternalBuffer_def)

lemma not_shaped_simps [simp]:
  "\<not> buffer_shaped JNull" "\<not> buffer_shaped (JBool b)" "\<not> buffer_shaped (JNum n)"
  "\<not> buffer_shaped (JStr s)" "\<not> buffer_shaped (JArr xs)" "\<not> buffer_shaped (JBuf c)"
  "\<not> placeholder_shaped JNull" "\<not> placeholder_shaped (JBool b)" "\<not> placeholder_shaped (JNum n)"
  "\<not> placeholder_shaped (JStr s)" "\<not> placeholder_shaped (JArr xs)" "\<not> placeholder_shaped (JBuf c)"
  by (simp_all add: buffer_shaped_def placeholder_shaped_def)

subsection \<open>Leaves\<close>

lemma stringify_leaf: "is_leaf v \<Longrightarrow> JSON_stringify pf v s = Inr (v, s)"
  by (cases v) (simp_all add: is_leaf_def JSON_stringify.simps replacer_plain)

lemma revive_leaf: "is_leaf v \<Longrightarrow> revive pf (emb v) pend = Inr (emb v, pend)"
  by (cases v) (simp_all add: is_leaf_def emb_def bufferReceiver_plain)

lemma roundtrips_leaf: "is_leaf v \<Longrightarrow> roundtrips pf v"
  unfolding roundtrips_def decodes_def
  by (cases v) (simp_all add: stringify_leaf revive_leaf, simp_all add: is_leaf_def emb_def)

lemma stringify_extracted:
  assumes "replacerFunction pf (toJSON v) s = Inr (ExternalBuffer i n, s2)"
  shows "JSON_stringify pf v s = Inr (ExternalBuffer i n, s2)"
proof -
  have "traverse (on_snd (JSON_stringify pf))
          [(''type'', JStr ''ExternalBuffer''), (''index'', JNum i), (''size'', JNum n)] s2
        = Inr ([(''type'', JStr ''ExternalBuffer''), (''index'', JNum i), (''size'', JNum n)], s2)"
    by (simp add: on_snd_def stringify_leaf is_leaf_def)
  with assms show ?thesis
    by (subst JSON_stringify.simps) (simp add: ExternalBuffer_def)
qed

lemma revive_placeholder:
  "revive pf (emb (ExternalBuffer i (int n))) pend
     = Inr (JBuf (replicate n 0, Some (length pend)), pend @ [(i, n)])"
proof -
  have "traverse (on_snd (revive pf))
          [(''type'', JStr ''ExternalBuffer''), (''index'', JNum i), (''size'', JNum (int n))] pend
        = Inr ([(''type'', JStr ''ExternalBuffer''), (''index'', JNum i), (''size'', JNum (int n))], pend)"
    by (simp add: on_snd_def bufferReceiver_plain)
  then show ?thesis
    using bufferReceiver_placeholder [of pf i n pend]
    by (simp add: emb_def ExternalBuffer_def)
qed

subsection \<open>Arrays and objects\<close>

lemma emb_eq: "emb = map_jsval (\<lambda>bs. (bs, None))"
  by (rule ext) (simp add: emb_def)

lemma emb_JArr: "emb (JArr xs) = JArr (map emb xs)"
  by (simp add: emb_eq)

lemma emb_JObj_zip: "emb (JObj (zip ks ds)) = JObj (zip ks (map emb ds))"
  by (simp add: emb_eq zip_map2 map_prod_def)

lemma stringify_JArr:
  "JSON_stringify pf (JArr xs) s =
     (case traverse (JSON_stringify pf) xs s of
        Inl e \<Rightarrow> Inl e
      | Inr (ds, s') \<Rightarrow> Inr (JArr ds, s'))"
  by (subst JSON_stringify.simps) (simp add: replacer_plain)

lemma stringify_JObj_plain:
  assumes "replacerFunction pf (JObj kvs) s = Inr (JObj kvs, s)"
  shows "JSON_stringify pf (JObj kvs) s =
     (case traverse (JSON_stringify pf) (map snd kvs) s of
        Inl e \<Rightarrow> Inl e
      | Inr (ds, s') \<Rightarrow> Inr (JObj (zip (map fst kvs) ds), s'))"
  using assms
  by (subst JSON_stringify.simps) (simp add: traverse_on_snd split: sum.splits)

lemma revive_JArr:
  "revive pf (emb (JArr ds)) pend =
     (case traverse (revive pf) (map emb ds) pend of
        Inl e \<Rightarrow> Inl e
      | Inr (ts, p) \<Rightarrow> Inr (JArr ts, p))"
  by (simp add: emb_JArr bufferReceiver_plain split: sum.splits)

lemma revive_JObj:
  assumes "length ds = length ks"
  shows "revive pf (emb (JObj (zip ks ds))) pend =
     (case traverse (revive pf) (map emb ds) pend of
        Inl e \<Rightarrow> Inl e
      | Inr (ts, p) \<Rightarrow> bufferReceiver pf (JObj (zip ks ts)) p)"
proof -
  have "map snd (zip ks (map emb ds)) = map emb ds" "map fst (zip ks (map emb ds)) = ks"
    using assms by simp_all
  then show ?thesis
    by (simp add: emb_JObj_zip traverse_on_snd split: sum.splits)
qed

lemma roundtrips_JArr:
  assumes "roundtrips_list pf xs"
  shows "roundtrips pf (JArr xs)"
  unfolding roundtrips_def
proof (intro allI)
  fix ebs n
  let ?b = "concat (map large_buffers xs)"
  from assms obtain ds where
    ds: "traverse (JSON_stringify pf) xs (ebs, n)
           = Inr (ds, ebs @ numbered (length ebs) ?b, n + sum_list (map length ?b))"
    and dds: "decodes_list pf (length ebs) ds xs"
    unfolding roundtrips_list_def by blast
  have "decodes pf (length ebs) (JArr ds) (JArr xs)"
    unfolding decodes_def
  proof (intro allI)
    fix pend
    from dds obtain ts where
      ts: "traverse (revive pf) (map emb ds) pend = Inr (ts, pend @ pending (length ebs) ?b)"
      and tsf: "\<And>filled. agree filled (length pend) ?b \<Longrightarrow>
                  map (map_jsval (fill filled)) ts = map read_back xs"
      unfolding decodes_list_def by blast
    show "\<exists>t. revive pf (emb (JArr ds)) pend = Inr (t, pend @ pending (length ebs) (large_buffers (JArr xs)))
            \<and> (\<forall>filled. agree filled (length pend) (large_buffers (JArr xs)) \<longrightarrow>
                  map_jsval (fill filled) t = read_back (JArr xs))"
      using ts tsf by (intro exI [of _ "JArr ts"]) (simp add: revive_JArr)
  qed
  with ds show "\<exists>d. JSON_stringify pf (JArr xs) (ebs, n)
           = Inr (d, ebs @ numbered (length ebs) (large_buffers (JArr xs)),
                  n + sum_list (map length (large_buffers (JArr xs))))
         \<and> decodes pf (length ebs) d (JArr xs)"
    by (intro exI [of _ "JArr ds"]) (simp add: stringify_JArr)
qed

lemma rel_truthy: "map_jsval g t = read_back c \<Longrightarrow> truthy t = truthy c"
  by (metis truthy_map truthy_read_back)

lemma rel_JStr: "map_jsval g t = read_back c \<Longrightarrow> (t = JStr s) = (c = JStr s)"
  by (metis map_eq_JStr read_back_eq_JStr)

lemma rel_JNum: "map_jsval g t = read_back c \<Longrightarrow> is_JNum t = is_JNum c"
  by (metis is_JNum_map is_JNum_read_back)

lemma shaped_transfer:
  assumes "\<And>k. rel_option (\<lambda>c t. map_jsval g t = read_back c) (map_of kvs k) (map_of kts k)"
  shows "buffer_shaped (JObj kts) = buffer_shaped (JObj kvs)"
    and "placeholder_shaped (JObj kts) = placeholder_shaped (JObj kvs)"
proof -
  have ty: "(map_of kts ''type'' = Some (JStr s)) = (map_of kvs ''type'' = Some (JStr s))" for s
    by (cases rule: option.rel_cases [OF assms [of "''type''"]]) (simp_all add: rel_JStr)
  have tr: "(case map_of kts k of Some d \<Rightarrow> truthy d | None \<Rightarrow> False)
           = (case map_of kvs k of Some d \<Rightarrow> truthy d | None \<Rightarrow> False)" for k
    by (cases rule: option.rel_cases [OF assms [of k]]) (simp_all add: rel_truthy)
  have nu: "(case map_of kts k of Some d \<Rightarrow> is_JNum d | None \<Rightarrow> False)
           = (case map_of kvs k of Some d \<Rightarrow> is_JNum d | None \<Rightarrow> False)" for k
    by (cases rule: option.rel_cases [OF assms [of k]]) (simp_all add: rel_JNum)
  show "buffer_shaped (JObj kts) = buffer_shaped (JObj kvs)"
    by (simp add: buffer_shaped_def ty tr)
  show "placeholder_shaped (JObj kts) = placeholder_shaped (JObj kvs)"
    by (simp add: placeholder_shaped_def ty nu)
qed

lemma zip_fst_map_snd: "zip (map fst kvs) (map (\<lambda>kv. f (snd kv)) kvs) = map (\<lambda>kv. (fst kv, f (snd kv))) kvs"
  by (induction kvs) auto

lemma byte_data_Some:
  assumes "byte_data v = Some bs"
  obtains xs where "get_prop ''data'' v = Some (JArr xs)" and "list_all is_JNum xs"
    and "bs = map (\<lambda>x. word_of_int (the_JNum x)) xs"
  using assms
  by (auto simp: byte_data_def split: option.splits jsval.splits if_splits)

lemma roundtrips_JObj:
  assumes rl: "roundtrips_list pf (map snd kvs)"
    and node: "if buffer_shaped (JObj kvs) then byte_data (JObj kvs) \<noteq> None
               else \<not> placeholder_shaped (JObj kvs)"
  shows "roundtrips pf (JObj kvs)"
proof (cases "buffer_shaped (JObj kvs) \<and> (\<exists>bs. byte_data (JObj kvs) = Some bs \<and> 1024 \<le> length bs)")
  case True
  then obtain bs where sh: "buffer_shaped (JObj kvs)" and bd: "byte_data (JObj kvs) = Some bs"
    and big: "1024 \<le> length bs"
    by blast
  from bd obtain xs where xs: "get_prop ''data'' (JObj kvs) = Some (JArr xs)" "list_all is_JNum xs"
    "bs = map (\<lambda>x. word_of_int (the_JNum x)) xs"
    by (rule byte_data_Some)
  have ge: "data_length_ge_1024 pf (JArr xs)" using big xs(3) by (simp add: data_length_ge_1024_def)
  have bf: "Buffer_from pf (JArr xs) = Inr bs" using xs(2,3) by (simp add: Buffer_from_def)
  have lb: "large_buffers (JObj kvs) = [bs]" using sh bd big by simp
  have rb: "read_back (JObj kvs) = JBuf bs" using sh bd by simp
  show ?thesis
    unfolding roundtrips_def
  proof (intro allI)
    fix ebs n
    have "replacerFunction pf (toJSON (JObj kvs)) (ebs, n)
            = Inr (ExternalBuffer (int (length ebs)) (int (length bs)), ebs @ [(length ebs, bs)], n + length bs)"
      using replacer_extract [OF sh xs(1) ge bf] by simp
    then have s: "JSON_stringify pf (JObj kvs) (ebs, n)
            = Inr (ExternalBuffer (int (length ebs)) (int (length bs)), ebs @ [(length ebs, bs)], n + length bs)"
      by (rule stringify_extracted)
    have "decodes pf (length ebs) (ExternalBuffer (int (length ebs)) (int (length bs))) (JObj kvs)"
      unfolding decodes_def lb rb
    proof (intro allI)
      fix pend :: "(int \<times> nat) list"
      have "\<forall>filled. agree filled (length pend) [bs] \<longrightarrow>
              map_jsval (fill filled) (JBuf (replicate (length bs) 0, Some (length pend))) = JBuf bs"
        by (auto simp: fill_def dest: agree_single)
      then show "\<exists>t. revive pf (emb (ExternalBuffer (int (length ebs)) (int (length bs)))) pend
                    = Inr (t, pend @ pending (length ebs) [bs])
              \<and> (\<forall>filled. agree filled (length pend) [bs] \<longrightarrow> map_jsval (fill filled) t = JBuf bs)"
        by (simp add: revive_placeholder)
    qed
    with s show "\<exists>d. JSON_stringify pf (JObj kvs) (ebs, n)
             = Inr (d, ebs @ numbered (length ebs) (large_buffers (JObj kvs)),
                    n + sum_list (map length (large_buffers (JObj kvs))))
           \<and> decodes pf (length ebs) d (JObj kvs)"
      unfolding lb by simp
  qed
next
  case False
  let ?ks = "map fst kvs" and ?cs = "map snd kvs"
  let ?b = "concat (map large_buffers ?cs)"
  have lb: "large_buffers (JObj kvs) = ?b"
    using False by (auto simp: comp_def split: option.splits)
  have small: "\<not> (buffer_shaped (JObj kvs)
                  \<and> (\<exists>d. get_prop ''data'' (JObj kvs) = Some d \<and> data_length_ge_1024 pf d))"
  proof
    assume a: "buffer_shaped (JObj kvs)
                 \<and> (\<exists>d. get_prop ''data'' (JObj kvs) = Some d \<and> data_length_ge_1024 pf d)"
    with node obtain bs where bd: "byte_data (JObj kvs) = Some bs" by auto
    then obtain xs where xs: "get_prop ''data'' (JObj kvs) = Some (JArr xs)"
      "bs = map (\<lambda>x. word_of_int (the_JNum x)) xs"
      by (rule byte_data_Some)
    with a have "1024 \<le> length bs" by (auto simp: data_length_ge_1024_def)
    with a bd False show False by blast
  qed
  show ?thesis
    unfolding roundtrips_def
  proof (intro allI)
    fix ebs n
    from rl obtain ds where
      ds: "traverse (JSON_stringify pf) ?cs (ebs, n)
             = Inr (ds, ebs @ numbered (length ebs) ?b, n + sum_list (map length ?b))"
      and dds: "decodes_list pf (length ebs) ds ?cs"
      unfolding roundtrips_list_def by blast
    have lds: "length ds = length ?ks" using traverse_length [OF ds] by simp
    have "replacerFunction pf (JObj kvs) (ebs, n) = Inr (JObj kvs, (ebs, n))"
      using small by (rule replacer_plain)
    then have s: "JSON_stringify pf (JObj kvs) (ebs, n)
                    = Inr (JObj (zip ?ks ds), ebs @ numbered (length ebs) ?b, n + sum_list (map length ?b))"
      by (simp add: stringify_JObj_plain ds)
    have "decodes pf (length ebs) (JObj (zip ?ks ds)) (JObj kvs)"
      unfolding decodes_def lb
    proof (intro allI)
      fix pend
      from dds obtain ts where
        ts: "traverse (revive pf) (map emb ds) pend = Inr (ts, pend @ pending (length ebs) ?b)"
        and tsf: "\<And>filled. agree filled (length pend) ?b \<Longrightarrow>
                    map (map_jsval (fill filled)) ts = map read_back ?cs"
        unfolding decodes_list_def by blast
      have lts: "length ts = length ?ks" using traverse_length [OF ts] lds by simp
      have rv: "revive pf (emb (JObj (zip ?ks ds))) pend
                  = bufferReceiver pf (JObj (zip ?ks ts)) (pend @ pending (length ebs) ?b)"
        by (simp add: revive_JObj [OF lds] ts)
      obtain F where F: "agree F (length pend) ?b" using agree_exists by blast
      have pw: "map_jsval (fill F) (ts ! j) = read_back (?cs ! j)" if "j < length ?ks" for j
      proof -
        from tsf [OF F] have "map (map_jsval (fill F)) ts ! j = map read_back ?cs ! j" by simp
        with that lts show ?thesis by simp
      qed
      have "rel_option (\<lambda>c t. map_jsval (fill F) t = read_back c)
              (map_of (zip ?ks ?cs) k) (map_of (zip ?ks ts) k)" for k
        by (rule map_of_zip_rel) (simp_all add: lts pw)
      then have rel: "rel_option (\<lambda>c t. map_jsval (fill F) t = read_back c)
              (map_of kvs k) (map_of (zip ?ks ts) k)" for k
        by (simp add: zip_map_fst_snd)
      note tr = shaped_transfer [of "fill F" kvs "zip ?ks ts", OF rel]
      show "\<exists>t. revive pf (emb (JObj (zip ?ks ds))) pend = Inr (t, pend @ pending (length ebs) ?b)
              \<and> (\<forall>filled. agree filled (length pend) ?b \<longrightarrow>
                    map_jsval (fill filled) t = read_back (JObj kvs))"
      proof (cases "buffer_shaped (JObj kvs)")
        case True
        with node obtain bs where bd: "byte_data (JObj kvs) = Some bs" by auto
        then obtain xs where xs: "get_prop ''data'' (JObj kvs) = Some (JArr xs)" "list_all is_JNum xs"
          "bs = map (\<lambda>x. word_of_int (the_JNum x)) xs"
          by (rule byte_data_Some)
        from rel [of "''data''"] xs(1) obtain td where
          td: "get_prop ''data'' (JObj (zip ?ks ts)) = Some td"
          and tdq: "map_jsval (fill F) td = read_back (JArr xs)"
          by (auto elim!: option.rel_cases)
        from tdq xs(2) have "map_jsval (fill F) td = JArr xs" by (simp add: read_back_numbers)
        then have "Buffer_from pf (map_jsval fst td) = Inr bs"
          using xs(2,3) by (simp add: Buffer_from_numbers)
        with True tr(1) td have "bufferReceiver pf (JObj (zip ?ks ts)) (pend @ pending (length ebs) ?b)
                 = Inr (JBuf (bs, None), pend @ pending (length ebs) ?b)"
          by (intro bufferReceiver_buffer) simp_all
        with rv True bd show ?thesis by (simp add: fill_def)
      next
        case False
        with node tr have "bufferReceiver pf (JObj (zip ?ks ts)) (pend @ pending (length ebs) ?b)
                 = Inr (JObj (zip ?ks ts), pend @ pending (length ebs) ?b)"
          by (intro bufferReceiver_plain) simp_all
        moreover have "map_jsval (fill filled) (JObj (zip ?ks ts)) = read_back (JObj kvs)"
          if "agree filled (length pend) ?b" for filled
        proof -
          have "map_jsval (fill filled) (JObj (zip ?ks ts))
                  = JObj (zip ?ks (map (map_jsval (fill filled)) ts))"
            by (simp add: zip_map2 map_prod_def)
          also have "\<dots> = JObj (zip ?ks (map read_back ?cs))" using tsf [OF that] by simp
          also have "\<dots> = read_back (JObj kvs)"
            using False zip_fst_map_snd [of kvs read_back] by (simp add: comp_def)
          finally show ?thesis .
        qed
        ultimately show ?thesis using rv by simp
      qed
    qed
    with s show "\<exists>d. JSON_stringify pf (JObj kvs) (ebs, n)
             = Inr (d, ebs @ numbered (length ebs) (large_buffers (JObj kvs)),
                    n + sum_list (map length (large_buffers (JObj kvs))))
           \<and> decodes pf (length ebs) d (JObj kvs)"
      unfolding lb by simp
  qed
qed

lemma stringify_JBuf: "JSON_stringify pf (JBuf bs) s = JSON_stringify pf (toJSON (JBuf bs)) s"
  by (simp add: JSON_stringify.simps [of pf "JBuf bs"] JSON_stringify.simps [of pf "JObj kvs" for kvs])

lemma large_buffers_numbers: "concat (map large_buffers (map (\<lambda>b. JNum (f b)) bs)) = []"
  by (induction bs) auto

lemma toJSON_facts:
  "buffer_shaped (toJSON (JBuf bs))"
  "byte_data (toJSON (JBuf bs)) = Some bs"
  by (simp_all add: buffer_shaped_def byte_data_def list_all_iff comp_def)

lemma roundtrips_JBuf: "roundtrips pf (JBuf bs)"
proof -
  let ?nums = "map (\<lambda>b. JNum (uint b)) bs :: bytes jsval list"
  let ?kvs = "[(''type'', JStr ''Buffer''), (''data'', JArr ?nums)] :: (string \<times> bytes jsval) list"
  have kvs: "toJSON (JBuf bs) = JObj ?kvs" by simp
  have "roundtrips_list pf ?nums"
    by (rule roundtrips_list) (auto intro!: roundtrips_leaf simp: is_leaf_def)
  then have "roundtrips pf (JArr ?nums)" by (rule roundtrips_JArr)
  moreover have "roundtrips pf (JStr ''Buffer'')" by (rule roundtrips_leaf) (simp add: is_leaf_def)
  ultimately have "roundtrips_list pf (map snd ?kvs)"
    by (intro roundtrips_list) auto
  moreover have "if buffer_shaped (JObj ?kvs) then byte_data (JObj ?kvs) \<noteq> None
                 else \<not> placeholder_shaped (JObj ?kvs)"
    using toJSON_facts [of bs] by simp
  ultimately have r: "roundtrips pf (JObj ?kvs)" by (rule roundtrips_JObj)
  have lb: "large_buffers (JObj ?kvs) = large_buffers (JBuf bs)"
    using toJSON_facts [of bs] large_buffers_numbers [of uint bs] by simp
  have rb: "read_back (JObj ?kvs) = read_back (JBuf bs)"
    using toJSON_facts [of bs] by simp
  have "decodes pf off d (JObj ?kvs) = decodes pf off d (JBuf bs)" for off d
    unfolding decodes_def lb rb ..
  with r show ?thesis
    unfolding roundtrips_def lb stringify_JBuf kvs by simp
qed

lemma supported_roundtrips: "supported v \<Longrightarrow> roundtrips pf v"
proof (induction v)
  case (JArr xs)
  then have "roundtrips_list pf xs"
    by (intro roundtrips_list) (auto simp: list_all_iff)
  then show ?case by (rule roundtrips_JArr)
next
  case (JObj kvs)
  have "roundtrips_list pf (map snd kvs)"
  proof (rule roundtrips_list)
    fix x assume "x \<in> set (map snd kvs)"
    then obtain kv where kv: "kv \<in> set kvs" and x: "x = snd kv" by auto
    then have "x \<in> Basic_BNFs.snds kv" by (simp add: snds.intros)
    moreover from JObj.prems kv x have "supported x" by (auto simp: list_all_iff)
    ultimately show "roundtrips pf x" using JObj.IH kv by blast
  qed
  moreover from JObj.prems have
    "if buffer_shaped (JObj kvs) then byte_data (JObj kvs) \<noteq> None else \<not> placeholder_shaped (JObj kvs)"
    by simp
  ultimately show ?case by (rule roundtrips_JObj)
next
  case (JBuf bs)
  show ?case by (rule roundtrips_JBuf)
qed (auto intro!: roundtrips_leaf simp: is_leaf_def)

subsection \<open>Segment file names\<close>

lemma digit_code: "k < 10 \<Longrightarrow> (of_char (''0123456789'' ! k) :: nat) = 48 + k"
proof -
  have "list_all (\<lambda>k. (of_char (''0123456789'' ! k) :: nat) = 48 + k) [0..<10]"
    by code_simp
  then show "k < 10 \<Longrightarrow> (of_char (''0123456789'' ! k) :: nat) = 48 + k"
    by (simp add: list_all_iff)
qed

lemma read_nat_snoc: "read_nat (xs @ [c]) = 10 * read_nat xs + (of_char c - 48)"
  by (simp add: read_nat_def)

lemma read_nat_show_nat: "read_nat (show_nat n) = n"
proof (induction n rule: show_nat.induct)
  case (1 n)
  show ?case
  proof (cases "n < 10")
    case True
    then show ?thesis
      by (subst show_nat.simps) (simp add: read_nat_def digit_code)
  next
    case False
    with 1 have "read_nat (show_nat (n div 10)) = n div 10" by simp
    with False show ?thesis
      by (subst show_nat.simps) (simp add: read_nat_snoc digit_code)
  qed
qed

lemma show_nat_inj: "show_nat i = show_nat j \<Longrightarrow> i = j"
  by (metis read_nat_show_nat)

lemma show_int_nat [simp]: "show_int (int i) = show_nat i"
  by (simp add: show_int_def)

lemma segment_path_inj: "segment_path p (show_nat i) = segment_path p (show_nat j) \<Longrightarrow> i = j"
  by (simp add: segment_path_def show_nat_inj)

lemma fold_writeFile_lookup:
  "distinct (map name ebs) \<Longrightarrow> eb \<in> set ebs \<Longrightarrow>
   fmlookup (files (fold (\<lambda>eb. writeFile (name eb) (content eb)) ebs st)) (name eb) = Some (content eb)"
proof (induction ebs arbitrary: st)
  case Nil
  then show ?case by simp
next
  case (Cons a ebs)
  show ?case
  proof (cases "eb \<in> set ebs")
    case True
    with Cons show ?thesis by simp
  next
    case False
    with Cons.prems have eq: "eb = a" and "\<forall>x \<in> set ebs. name eb \<noteq> name x" by auto
    then have "fmlookup (files (fold (\<lambda>eb. writeFile (name eb) (content eb)) ebs (writeFile (name a) (content a) st))) (name eb)
                = fmlookup (files (writeFile (name a) (content a) st)) (name eb)"
      by (intro fold_writeFile_other) simp
    moreover have "fmlookup (files (writeFile (name a) (content a) st)) (name a) = Some (content a)"
      by (simp add: writeFile_def)
    ultimately show ?thesis using eq by simp
  qed
qed

section \<open>Reading what was written\<close>

lemma write_success_state:
  assumes "write pf path v cachePath maxsize now st = (Inr (), st')"
    and "JSON_stringify pf v ([], 0) = Inr (d, ebs, n)"
  shows "\<exists>st2 md. st' = fold (\<lambda>eb. writeFile (segment_path path (show_nat (fst eb))) (Bin (snd eb))) ebs
                          (writeMetaFile cachePath md (writeFile (path @ ''.json'') (Doc d) st2))"
  using assms
  by (auto simp: write_def Let_def split: if_splits prod.splits sum.splits)

lemma nth_pending:
  "j < length bss \<Longrightarrow> pending off bss ! j = (int (off + j), length (bss ! j))"
  by (simp add: pending_def numbered_def)

lemma length_pending [simp]: "length (pending off bss) = length bss"
  by (simp add: pending_def)

lemma map_fun_fst_numbered: "map (\<lambda>eb. f (fst eb)) (numbered off L) = map f [off..<off + length L]"
proof -
  have "map (\<lambda>eb. f (fst eb)) (numbered off L) = map f (map fst (numbered off L))"
    by (simp add: comp_def del: map_fst_numbered)
  then show ?thesis by simp
qed

lemma read_after_write:
  assumes sup: "supported v"
    and w: "write pf path v cachePath maxsize now st = (Inr (), st')"
    and ne: "path @ ''.json'' \<noteq> metaFilePath cachePath"
  shows "fst (read pf path st') = Inr (read_back v)"
proof -
  let ?L = "large_buffers v"
  let ?name = "\<lambda>eb :: nat \<times> bytes. segment_path path (show_nat (fst eb))"
  let ?content = "\<lambda>eb :: nat \<times> bytes. Bin (snd eb)"
  from supported_roundtrips [OF sup, of pf] obtain d where
    enc: "JSON_stringify pf v ([], 0) = Inr (d, numbered 0 ?L, sum_list (map length ?L))"
    and dec: "decodes pf 0 d v"
    unfolding roundtrips_def by (metis append_Nil list.size(3) add_0)
  from write_success_state [OF w enc] obtain st2 md where
    st': "st' = fold (\<lambda>eb. writeFile (?name eb) (?content eb)) (numbered 0 ?L)
                  (writeMetaFile cachePath md (writeFile (path @ ''.json'') (Doc d) st2))"
    by blast
  have "fmlookup (files st') (path @ ''.json'')
          = fmlookup (files (writeMetaFile cachePath md (writeFile (path @ ''.json'') (Doc d) st2))) (path @ ''.json'')"
    unfolding st' by (rule fold_writeFile_other) (simp add: json_ne_bin)
  then have doc: "fmlookup (files st') (path @ ''.json'') = Some (Doc d)"
    using ne by (simp add: writeMetaFile_def writeFile_def)
  have dist: "distinct (map ?name (numbered 0 ?L))"
  proof -
    have "map ?name (numbered 0 ?L) = map (\<lambda>i. segment_path path (show_nat i)) [0..<length ?L]"
      using map_fun_fst_numbered [of "\<lambda>i. segment_path path (show_nat i)" 0 ?L] by simp
    moreover have "inj_on (\<lambda>i. segment_path path (show_nat i)) (set [0..<length ?L])"
      by (rule inj_onI) (rule segment_path_inj)
    ultimately show ?thesis by (simp add: distinct_map)
  qed
  have seg: "fmlookup (files st') (segment_path path (show_nat j)) = Some (Bin (?L ! j))"
    if "j < length ?L" for j
  proof -
    from that have "numbered 0 ?L ! j = (j, ?L ! j)"
      by (simp add: numbered_def)
    with that have "(j, ?L ! j) \<in> set (numbered 0 ?L)"
      by (metis length_numbered nth_mem)
    from fold_writeFile_lookup [where name = ?name and content = ?content, OF dist this]
    show ?thesis unfolding st' by simp
  qed
  from dec obtain t where
    t: "revive pf (emb d) [] = Inr (t, pending 0 ?L)"
    and tf: "\<And>filled. agree filled 0 ?L \<Longrightarrow> map_jsval (fill filled) t = read_back v"
    unfolding decodes_def by (metis append_Nil list.size(3))
  have parse: "JSON_parse pf d = Inr (t, pending 0 ?L)"
    using t by (simp add: JSON_parse_def emb_def)
  have present: "\<not> (\<exists>eb \<in> set (pending 0 ?L).
                      fmlookup (files st') (segment_path path (show_int (fst eb))) = None)"
  proof
    assume "\<exists>eb \<in> set (pending 0 ?L). fmlookup (files st') (segment_path path (show_int (fst eb))) = None"
    then obtain j where "j < length ?L"
      and "fmlookup (files st') (segment_path path (show_int (fst (pending 0 ?L ! j)))) = None"
      by (auto simp: in_set_conv_nth)
    with seg [of j] show False by (simp add: nth_pending)
  qed
  have "map (buffer_after_read (files st') path) (pending 0 ?L) = ?L"
    by (rule nth_equalityI) (simp_all add: nth_pending buffer_after_read_def seg)
  then have "agree (map (buffer_after_read (files st') path) (pending 0 ?L)) 0 ?L"
    by (simp add: agree_def)
  from tf [OF this] read_result [OF doc parse] present show ?thesis by simp
qed

lemma clean_supported: "clean v \<Longrightarrow> supported v"
  by (induction v) (auto simp: list_all_iff snds.intros)

lemma clean_read_back: "clean v \<Longrightarrow> read_back v = v"
proof (induction v)
  case (JArr xs)
  then show ?case by (auto simp: list_all_iff intro: map_idI)
next
  case (JObj kvs)
  then have "map (\<lambda>kv. (fst kv, read_back (snd kv))) kvs = kvs"
    by (intro map_idI) (auto simp: list_all_iff snds.intros prod_eq_iff)
  with JObj.prems show ?case by simp
qed auto

lemma stringify_big_buffer:
  assumes "1024 \<le> length bs"
  shows "JSON_stringify pf (JBuf bs) (ebs, n) =
           Inr (ExternalBuffer (int (length ebs)) (int (length bs)), ebs @ [(length ebs, bs)], n + length bs)"
proof -
  have "data_length_ge_1024 pf (JArr (map (\<lambda>b. JNum (uint b)) bs))"
    using assms by (simp add: data_length_ge_1024_def)
  moreover have "Buffer_from pf (JArr (map (\<lambda>b. JNum (uint b)) bs)) = Inr bs"
    by (simp add: Buffer_from_def list_all_iff comp_def)
  ultimately have "replacerFunction pf (toJSON (JBuf bs)) (ebs, n) =
           Inr (ExternalBuffer (int (length ebs)) (int (length bs)), ebs @ [(length ebs, bs)], n + length bs)"
    using toJSON_facts(1) [of bs] by (intro replacer_extract) simp_all
  then show ?thesis by (rule stringify_extracted)
qed

lemma stringify_small_buffer:
  assumes "length bs < 1024"
  shows "JSON_stringify pf (JBuf bs) s = Inr (toJSON (JBuf bs), s)"
proof -
  let ?nums = "map (\<lambda>b. JNum (uint b)) bs :: bytes jsval list"
  have "replacerFunction pf (toJSON (JBuf bs)) s = Inr (toJSON (JBuf bs), s)"
    using assms by (intro replacer_plain) (simp add: data_length_ge_1024_def)
  moreover have "traverse (JSON_stringify pf) ?nums u = Inr (?nums, u)" for u
    by (rule traverse_fixed) (auto simp: stringify_leaf is_leaf_def)
  then have "JSON_stringify pf (JArr ?nums) u = Inr (JArr ?nums, u)" for u
    by (simp add: stringify_JArr)
  ultimately show ?thesis
    by (simp add: stringify_JBuf stringify_JObj_plain stringify_leaf is_leaf_def)
qed

lemma stringify_shaped:
  "JSON_stringify pf shaped_value s = Inr (shaped_value, s)"
  by (simp add: shaped_value_def JSON_stringify.simps replacerFunction_def data_length_ge_1024_def
      on_snd_def split: prod.splits)

lemma length_text_shaped: "length (json_text shaped_value) = 30"
  by (simp add: shaped_value_def quote_text_def escape_char_def show_int_def show_nat.simps)

lemma write_shaped:
  "fst (write example_platform ''c/a'' shaped_value ''c'' 100 1000 empty_fs) = Inr ()"
  by (simp add: write_def stringify_shaped length_text_shaped readMetaFile_def readFile_def
      empty_fs_def Let_def)

lemma stringify_mixed:
  "JSON_stringify pf mixed_value ([], 0) =
     Inr (mixed_document, [(0, replicate 1024 7)], 1024)"
proof -
  have "JSON_stringify pf (JObj [(''k'', JStr ''x'')]) s = Inr (JObj [(''k'', JStr ''x'')], s)" for s
    by (simp add: JSON_stringify.simps replacerFunction_def on_snd_def split: prod.splits)
  moreover have "JSON_stringify pf (JBuf (replicate 1024 7)) ([], 0)
                   = Inr (ExternalBuffer 0 1024, [(0, replicate 1024 7)], 1024)"
    using stringify_big_buffer [of "replicate 1024 7" pf "[]" 0] by simp
  moreover have "JSON_stringify pf (JBuf [1, 2, 3]) s = Inr (toJSON (JBuf [1, 2, 3]), s)" for s
    by (rule stringify_small_buffer) simp
  ultimately show ?thesis
    by (simp add: mixed_value_def mixed_document_def stringify_JArr)
qed

lemma length_text_mixed: "length (json_text mixed_document) = 92"
  by (simp add: mixed_document_def ExternalBuffer_def quote_text_def escape_char_def show_int_def
      show_nat.simps)

lemma write_mixed:
  "fst (write example_platform ''c/a'' mixed_value ''c'' 2000 1000 empty_fs) = Inr ()"
  by (simp add: write_def stringify_mixed length_text_mixed readMetaFile_def readFile_def
      empty_fs_def Let_def)

text \<open>
  Claim C4, as amended. Let no plain object of the value be buffer-shaped or
  placeholder-shaped. When a write of the value under a path succeeds, and the path
  is not that of the index file without its extension, reading the path returns the
  value, buffers of every size included.
\<close>

theorem round_trip:
  assumes "clean v"
    and "write pf path v cachePath maxsize now st = (Inr (), st')"
    and "path @ ''.json'' \<noteq> metaFilePath cachePath"
  shows "fst (read pf path st') = Inr v"
  using read_after_write [OF clean_supported [OF assms(1)] assms(2,3)] clean_read_back [OF assms(1)]
  by simp

theorem round_trip_witness:
  "clean mixed_value
   \<and> fst (write example_platform ''c/a'' mixed_value ''c'' 2000 1000 empty_fs) = Inr ()
   \<and> fst (read example_platform ''c/a''
            (snd (write example_platform ''c/a'' mixed_value ''c'' 2000 1000 empty_fs)))
       = Inr mixed_value"
proof -
  have c: "clean mixed_value"
    by (simp add: mixed_value_def buffer_shaped_def placeholder_shaped_def)
  have w: "write example_platform ''c/a'' mixed_value ''c'' 2000 1000 empty_fs
             = (Inr (), snd (write example_platform ''c/a'' mixed_value ''c'' 2000 1000 empty_fs))"
    using write_mixed by (metis prod.collapse)
  have ne: "''c/a'' @ ''.json'' \<noteq> metaFilePath ''c''" by (simp add: metaFilePath_def)
  from round_trip [OF c w ne] c write_mixed show ?thesis by simp
qed

text \<open>
  The claim as stated fails at the plain object \<^verbatim>\<open>{type: 'Buffer', data: [1, 2]}\<close>:
  the write succeeds and the read returns a buffer of two bytes.
\<close>

theorem round_trip_counterexample:
  "fst (write example_platform ''c/a'' shaped_value ''c'' 100 1000 empty_fs) = Inr ()
   \<and> fst (read example_platform ''c/a''
            (snd (write example_platform ''c/a'' shaped_value ''c'' 100 1000 empty_fs)))
       = Inr (JBuf [1, 2])
   \<and> JBuf [1, 2] \<noteq> shaped_value"
proof -
  have s: "supported shaped_value"
    by (simp add: shaped_value_def buffer_shaped_def byte_data_def)
  have r: "read_back shaped_value = JBuf [1, 2]"
    by (simp add: shaped_value_def buffer_shaped_def byte_data_def)
  have w: "write example_platform ''c/a'' shaped_value ''c'' 100 1000 empty_fs
             = (Inr (), snd (write example_platform ''c/a'' shaped_value ''c'' 100 1000 empty_fs))"
    using write_shaped by (metis prod.collapse)
  have ne: "''c/a'' @ ''.json'' \<noteq> metaFilePath ''c''" by (simp add: metaFilePath_def)
  from read_after_write [OF s w ne] r write_shaped show ?thesis
    by (simp add: shaped_value_def)
qed



text \<open>
  Claim C10. A plain object with \<^verbatim>\<open>type: 'Buffer'\<close> and an array of integers
  as \<^verbatim>\<open>data\<close> is encoded, when the array has at least 1024 elements, exactly as
  the buffer of its bytes is; \<open>read_back\<close> replaces it by that buffer; and reading
  a supported value after a successful write returns \<open>read_back\<close> of the value,
  so every such object comes back as a buffer.
\<close>

theorem buffer_detection_by_shape:
  assumes "get_prop ''type'' (JObj kvs) = Some (JStr ''Buffer'')"
    and "get_prop ''data'' (JObj kvs) = Some (JArr xs)"
    and "list_all is_JNum xs"
  shows "(1024 \<le> length xs \<longrightarrow>
            JSON_stringify pf (JObj kvs) (ebs, n) =
              JSON_stringify pf (JBuf (map (\<lambda>x. word_of_int (the_JNum x)) xs)) (ebs, n))
         \<and> read_back (JObj kvs) = JBuf (map (\<lambda>x. word_of_int (the_JNum x)) xs)
         \<and> (supported v \<and> write pf path v cachePath maxsize now st = (Inr (), st')
              \<and> path @ ''.json'' \<noteq> metaFilePath cachePath
            \<longrightarrow> fst (read pf path st') = Inr (read_back v))"
proof (intro conjI impI)
  let ?bs = "map (\<lambda>x. word_of_int (the_JNum x)) xs :: bytes"
  have sh: "buffer_shaped (JObj kvs)" using assms(1,2) by (simp add: buffer_shaped_def)
  have bd: "byte_data (JObj kvs) = Some ?bs" using assms(2,3) by (simp add: byte_data_def)
  show "read_back (JObj kvs) = JBuf ?bs" using sh bd by simp
  {
    assume big: "1024 \<le> length xs"
    have "data_length_ge_1024 pf (JArr xs)" using big by (simp add: data_length_ge_1024_def)
    moreover have "Buffer_from pf (JArr xs) = Inr ?bs" using assms(3) by (simp add: Buffer_from_def)
    ultimately have "replacerFunction pf (toJSON (JObj kvs)) (ebs, n) =
        Inr (ExternalBuffer (int (length ebs)) (int (length ?bs)), ebs @ [(length ebs, ?bs)], n + length ?bs)"
      using replacer_extract [OF sh assms(2)] by simp
    then have "JSON_stringify pf (JObj kvs) (ebs, n) =
        Inr (ExternalBuffer (int (length ebs)) (int (length ?bs)), ebs @ [(length ebs, ?bs)], n + length ?bs)"
      by (rule stringify_extracted)
    moreover have "JSON_stringify pf (JBuf ?bs) (ebs, n) =
        Inr (ExternalBuffer (int (length ebs)) (int (length ?bs)), ebs @ [(length ebs, ?bs)], n + length ?bs)"
      using big by (intro stringify_big_buffer) simp
    ultimately show "JSON_stringify pf (JObj kvs) (ebs, n) = JSON_stringify pf (JBuf ?bs) (ebs, n)"
      by simp
  }
  {
    assume "supported v \<and> write pf path v cachePath maxsize now st = (Inr (), st')
              \<and> path @ ''.json'' \<noteq> metaFilePath cachePath"
    then show "fst (read pf path st') = Inr (read_back v)"
      using read_after_write by blast
  }
qed

lemma write_nested_shaped:
  "fst (write example_platform ''c/a'' nested_shaped_value ''c'' 100 1000 empty_fs) = Inr ()"
proof -
  have s: "JSON_stringify example_platform nested_shaped_value ([], 0) = Inr (nested_shaped_value, [], 0)"
    using stringify_shaped [of example_platform]
    by (simp add: nested_shaped_value_def stringify_JArr stringify_num shaped_value_def)
  have l: "length (json_text nested_shaped_value) = 34"
    by (simp add: nested_shaped_value_def quote_text_def escape_char_def show_int_def show_nat.simps)
  show ?thesis
    by (simp add: write_def s l readMetaFile_def readFile_def empty_fs_def Let_def)
qed

theorem buffer_detection_by_shape_witness:
  "JSON_stringify example_platform large_shaped_value ([], 0)
     = JSON_stringify example_platform (JBuf (replicate 1024 44)) ([], 0)
   \<and> read_back large_shaped_value = JBuf (replicate 1024 44)
   \<and> fst (write example_platform ''c/a'' nested_shaped_value ''c'' 100 1000 empty_fs) = Inr ()
   \<and> fst (read example_platform ''c/a''
            (snd (write example_platform ''c/a'' nested_shaped_value ''c'' 100 1000 empty_fs)))
       = Inr (JArr [JBuf [1, 2], JNum 5])"
proof -
  let ?kvs = "[(''type'', JStr ''Buffer''), (''data'', JArr (replicate 1024 (JNum 300)))]
                :: (string \<times> bytes jsval) list"
  have a: "get_prop ''type'' (JObj ?kvs) = Some (JStr ''Buffer'')"
    and b: "get_prop ''data'' (JObj ?kvs) = Some (JArr (replicate 1024 (JNum 300)))"
    and c: "list_all is_JNum (replicate 1024 (JNum 300 :: bytes jsval))"
    by (simp_all add: list_all_iff)
  have s: "supported nested_shaped_value"
    by (simp add: nested_shaped_value_def buffer_shaped_def byte_data_def)
  have r: "read_back nested_shaped_value = JArr [JBuf [1, 2], JNum 5]"
    by (simp add: nested_shaped_value_def buffer_shaped_def byte_data_def)
  have w: "write example_platform ''c/a'' nested_shaped_value ''c'' 100 1000 empty_fs
             = (Inr (), snd (write example_platform ''c/a'' nested_shaped_value ''c'' 100 1000 empty_fs))"
    using write_nested_shaped by (metis prod.collapse)
  have ne: "''c/a'' @ ''.json'' \<noteq> metaFilePath ''c''" by (simp add: metaFilePath_def)
  have m: "(300 :: byte) = 44" by simp
  from buffer_detection_by_shape [OF a b c, of example_platform "[]" 0 nested_shaped_value
      "''c/a''" "''c''" 100 1000 empty_fs
      "snd (write example_platform ''c/a'' nested_shaped_value ''c'' 100 1000 empty_fs)"]
    s w ne r m write_nested_shaped
  show ?thesis
    by (simp add: large_shaped_value_def)
qed

end
